theory Spec2Isabelle
  imports Main "HOL-Library.Word"
begin

section \<open>Strings\<close>

text \<open>
  A string of the source language is a finite sequence of 16-bit code units; the
  \<open>length\<close> of a string and every index into it count code units. \<open>utf16\<close> writes
  the Basic Latin literals of the examples, one code unit per character.
\<close>

type_synonym code_unit = "16 word"
type_synonym js_string = "code_unit list"

definition utf16 :: "string \<Rightarrow> js_string" where
  "utf16 cs = map of_char cs"

text \<open>
  \<open>str.indexOf(c)\<close> for a search string of one code unit: the least index holding
  \<open>c\<close>, or \<open>-1\<close>.
\<close>

primrec indexOf_from :: "code_unit \<Rightarrow> js_string \<Rightarrow> nat \<Rightarrow> int" where
  "indexOf_from c [] k = - 1"
| "indexOf_from c (x # xs) k = (if x = c then int k else indexOf_from c xs (Suc k))"

definition indexOf :: "js_string \<Rightarrow> code_unit \<Rightarrow> int" where
  "indexOf str c = indexOf_from c str 0"

text \<open>
  \<open>str.charCodeAt(pos)\<close>: the code unit at \<open>pos\<close> as a number, \<open>None\<close> standing
  for the \<open>NaN\<close> of a position outside the string.
\<close>

definition charCodeAt :: "js_string \<Rightarrow> int \<Rightarrow> int option" where
  "charCodeAt str pos =
     (if 0 \<le> pos \<and> pos < int (length str) then Some (uint (str ! nat pos)) else None)"

text \<open>
  \<open>str.includes(c, pos)\<close> for a search string of one code unit: the position is
  clamped into the string and the search runs from there to the end. (The source's
  name is a reserved word here, hence the prefix.)
\<close>

definition str_includes :: "js_string \<Rightarrow> code_unit \<Rightarrow> int \<Rightarrow> bool" where
  "str_includes str c pos = (c \<in> set (drop (nat pos) str))"

subsection \<open>isHtml\<close>

text \<open>The enum \<open>CharacterCodes\<close>.\<close>

definition LowerA :: int where "LowerA = 97"
definition LowerZ :: int where "LowerZ = 122"
definition UpperA :: int where "UpperA = 65"
definition UpperZ :: int where "UpperZ = 90"
definition Exclamation :: int where "Exclamation = 33"

text \<open>
  \<open>isHtml\<close>, statement by statement; \<open>0x3C\<close> is \<open><\<close> and \<open>0x3E\<close> is \<open>>\<close>. A
  comparison with \<open>NaN\<close> is false, which is the \<open>None\<close> branch.
\<close>

definition isHtml :: "js_string \<Rightarrow> bool" where
  "isHtml str =
     (let tagStart = indexOf str 0x3C in
      if tagStart < 0 \<or> tagStart > int (length str) - 3 then False
      else
        (case charCodeAt str (tagStart + 1) of
           None \<Rightarrow> False
         | Some tagChar \<Rightarrow>
             ((tagChar \<ge> LowerA \<and> tagChar \<le> LowerZ) \<or>
              (tagChar \<ge> UpperA \<and> tagChar \<le> UpperZ) \<or>
              tagChar = Exclamation) \<and>
             str_includes str 0x3E (tagStart + 2)))"

text \<open>The words of the specification: an ASCII letter, \<open>a\<close> to \<open>z\<close> or \<open>A\<close> to \<open>Z\<close>.\<close>

definition ascii_letter :: "code_unit \<Rightarrow> bool" where
  "ascii_letter c = ((0x61 \<le> c \<and> c \<le> 0x7A) \<or> (0x41 \<le> c \<and> c \<le> 0x5A))"

text \<open>Position \<open>i\<close> holds the first \<open><\<close> of \<open>s\<close>.\<close>

definition first_lt :: "js_string \<Rightarrow> nat \<Rightarrow> bool" where
  "first_lt s i = (i < length s \<and> s ! i = 0x3C \<and> (\<forall>j<i. s ! j \<noteq> 0x3C))"

subsection \<open>Global replacement with a pattern\<close>

text \<open>
  \<open>str.replace(pattern, replacement)\<close> with a pattern that carries the \<open>g\<close> flag. A
  pattern is given by its matcher: \<open>m s i\<close> tries the pattern at index \<open>i\<close> of \<open>s\<close> and
  yields the length of the match and its capture groups. A replacement is a function of
  the matched substring and the captures.

  The loop is the one the language prescribes: \<open>lastIndex\<close> runs over the start
  positions from left to right, up to and including the end of the string; a failed
  attempt advances it by one; a match appends the unmatched text since \<open>nextPos\<close> and
  the replacement, and moves both past the match (an empty match advances \<open>lastIndex\<close>
  by one), so that matches never overlap.
\<close>

type_synonym 'c matcher = "js_string \<Rightarrow> nat \<Rightarrow> (nat \<times> 'c) option"
type_synonym 'c replacer = "js_string \<Rightarrow> 'c \<Rightarrow> js_string"

function replace_global ::
  "'c matcher \<Rightarrow> 'c replacer \<Rightarrow> js_string \<Rightarrow> nat \<Rightarrow> nat \<Rightarrow> js_string" where
  "replace_global m f s nextPos lastIndex =
     (if lastIndex > length s then drop nextPos s
      else
        (case m s lastIndex of
           None \<Rightarrow> replace_global m f s nextPos (lastIndex + 1)
         | Some (len, caps) \<Rightarrow>
             take (lastIndex - nextPos) (drop nextPos s) @
             f (take len (drop lastIndex s)) caps @
             replace_global m f s (lastIndex + len)
               (if len = 0 then lastIndex + 1 else lastIndex + len)))"
  by pat_completeness auto
termination
  by (relation "measure (\<lambda>(m, f, s, nextPos, lastIndex). length s + 1 - lastIndex)") auto

subsection \<open>camelCase\<close>

text \<open>
  The pattern \<open>/[_.-](\w|$)/\<close>: one of the three separators, then either a word
  character (the class \<open>\w\<close> is \<open>[A-Za-z0-9_]\<close>, the pattern having neither the
  \<open>i\<close> nor the \<open>u\<close> flag), which the group captures, or the end of the string, where
  the group captures the empty string. The alternatives are tried in this order. The
  capture is the matcher's second component.
\<close>

definition is_separator :: "code_unit \<Rightarrow> bool" where
  "is_separator c = (c = 0x5F \<or> c = 0x2E \<or> c = 0x2D)"

definition is_word_char :: "code_unit \<Rightarrow> bool" where
  "is_word_char c =
     ((0x61 \<le> c \<and> c \<le> 0x7A) \<or> (0x41 \<le> c \<and> c \<le> 0x5A) \<or>
      (0x30 \<le> c \<and> c \<le> 0x39) \<or> c = 0x5F)"

definition camel_regex :: "js_string matcher" where
  "camel_regex s i =
     (if i < length s \<and> is_separator (s ! i) then
        (if i + 1 < length s \<and> is_word_char (s ! (i + 1)) then Some (2, [s ! (i + 1)])
         else if i + 1 = length s then Some (1, [])
         else None)
      else None)"

text \<open>
  \<open>x.toUpperCase()\<close> on Basic Latin: \<open>a\<close> to \<open>z\<close> go to \<open>A\<close> to \<open>Z\<close> and every
  other code unit below \<open>0x80\<close> stays. The callback of \<open>camelCase\<close> only ever
  receives a capture of the pattern above, a single word character or the empty string,
  so this is all of the runtime's case mapping that \<open>camelCase\<close> can reach.
\<close>

definition toUpperCase :: "js_string \<Rightarrow> js_string" where
  "toUpperCase = map (\<lambda>c. if 0x61 \<le> c \<and> c \<le> 0x7A then c - 0x20 else c)"

definition camelCase :: "js_string \<Rightarrow> js_string" where
  "camelCase str = replace_global camel_regex (\<lambda>_ x. toUpperCase x) str 0 0"

text \<open>
  The specification's words, as they stand: a separator followed by a character is
  replaced by that character in upper case, and a separator that ends the string is
  dropped.
\<close>

fun toCamel_claimed :: "js_string \<Rightarrow> js_string" where
  "toCamel_claimed [] = []"
| "toCamel_claimed [c] = (if is_separator c then [] else [c])"
| "toCamel_claimed (c # d # rest) =
     (if is_separator c then toUpperCase [d] @ toCamel_claimed rest
      else c # toCamel_claimed (d # rest))"

text \<open>
  The same scan with the following character required to be a word character; a
  separator followed by anything else is copied like any other code unit.
\<close>

fun toCamel :: "js_string \<Rightarrow> js_string" where
  "toCamel [] = []"
| "toCamel [c] = (if is_separator c then [] else [c])"
| "toCamel (c # d # rest) =
     (if is_separator c \<and> is_word_char d then toUpperCase [d] @ toCamel rest
      else c # toCamel (d # rest))"

subsection \<open>cssCase\<close>

text \<open>
  The pattern \<open>/[A-Z]/\<close> has no group. The replacement string \<open>'-$&'\<close> stands for a
  hyphen followed by the matched substring. The runtime's \<open>toLowerCase\<close> works on the
  whole result and follows the Unicode tables; it is a parameter of the model, and
  \<open>latin1_lower\<close> is what it does to a string of code units below \<open>0x100\<close> (Basic
  Latin and the Latin-1 Supplement, where every capital is 32 below its small letter),
  used for the examples, which stay in that range.
\<close>

definition upper_regex :: "unit matcher" where
  "upper_regex s i =
     (if i < length s \<and> 0x41 \<le> s ! i \<and> s ! i \<le> 0x5A then Some (1, ()) else None)"

definition cssCase :: "(js_string \<Rightarrow> js_string) \<Rightarrow> js_string \<Rightarrow> js_string" where
  "cssCase toLowerCase str =
     toLowerCase (replace_global upper_regex (\<lambda>matched _. 0x2D # matched) str 0 0)"

text \<open>
  An upper-case letter among the code units below \<open>0x100\<close>: \<open>A\<close> to \<open>Z\<close>, and the
  capitals of the Latin-1 Supplement, \<open>U+00C0\<close> to \<open>U+00DE\<close> without the
  multiplication sign \<open>U+00D7\<close>. (Unicode has upper-case letters beyond this range as
  well; the examples do not need them.)
\<close>

definition uppercase_letter :: "code_unit \<Rightarrow> bool" where
  "uppercase_letter c =
     ((0x41 \<le> c \<and> c \<le> 0x5A) \<or> (0xC0 \<le> c \<and> c \<le> 0xD6) \<or> (0xD8 \<le> c \<and> c \<le> 0xDE))"

definition latin1_lower :: "js_string \<Rightarrow> js_string" where
  "latin1_lower = map (\<lambda>c. if uppercase_letter c then c + 0x20 else c)"

text \<open>
  The specification's words, as they stand: a hyphen is put before every upper-case
  letter of the input; the lower-casing of the result is applied on top.
\<close>

fun toHyphen_claimed :: "js_string \<Rightarrow> js_string" where
  "toHyphen_claimed [] = []"
| "toHyphen_claimed (c # cs) =
     (if uppercase_letter c then 0x2D # c # toHyphen_claimed cs else c # toHyphen_claimed cs)"

text \<open>
  The same with the hyphen put before the ASCII upper-case letters only, \<open>A\<close> to
  \<open>Z\<close>; every other code unit is copied.
\<close>

fun toHyphen :: "js_string \<Rightarrow> js_string" where
  "toHyphen [] = []"
| "toHyphen (c # cs) =
     (if 0x41 \<le> c \<and> c \<le> 0x5A then 0x2D # c # toHyphen cs else c # toHyphen cs)"

section \<open>Values and the instance detector\<close>

text \<open>
  The faults of the runtime that the functions below can raise: a \<open>TypeError\<close> for a
  property read through \<open>null\<close> or \<open>undefined\<close> (or through something that is not an
  object where one is needed), a \<open>RangeError\<close> when the call stack is exhausted, and
  the \<open>Error\<close> the node library throws for a node kind it cannot copy.
\<close>

datatype error = TypeError | RangeError | NotImplemented

text \<open>
  A value of the language, as far as a property read can tell values apart: the two
  nullish values, the primitives, and objects. An object is given by its table of
  named properties as a property read resolves them, own properties and those found
  along the prototype chain alike. A property is a data property, which holds a value,
  or an accessor property, whose read runs a getter: the getter returns a value or
  throws, and the model keeps this outcome. A proxy is covered by the same table: a
  read on it runs the \<open>get\<close> trap, which returns or throws as a getter does, and a
  read on a revoked proxy throws a \<open>TypeError\<close>.
\<close>

datatype js_value =
    JSUndefined
  | JSNull
  | JSBoolean bool
  | JSNumber int
  | JSString js_string
  | JSSymbol nat
  | JSBigInt int
  | JSObject "(string \<times> js_prop) list"
and js_prop =
    Data js_value
  | Accessor "error + js_value"

text \<open>
  A property read on a primitive goes to the prototype of its wrapper
  (\<open>Number.prototype\<close> and so on, then \<open>Object.prototype\<close>), which programs can
  extend; the tables of these prototypes are a parameter.
\<close>

datatype prim_kind = BooleanKind | NumberKind | StringKind | SymbolKind | BigIntKind

type_synonym prototypes = "prim_kind \<Rightarrow> (string \<times> js_prop) list"

fun named_properties :: "prototypes \<Rightarrow> js_value \<Rightarrow> (string \<times> js_prop) list option" where
  "named_properties P JSUndefined = None"
| "named_properties P JSNull = None"
| "named_properties P (JSBoolean b) = Some (P BooleanKind)"
| "named_properties P (JSNumber n) = Some (P NumberKind)"
| "named_properties P (JSString s) = Some (P StringKind)"
| "named_properties P (JSSymbol n) = Some (P SymbolKind)"
| "named_properties P (JSBigInt n) = Some (P BigIntKind)"
| "named_properties P (JSObject props) = Some props"

text \<open>
  \<open>v.k\<close>: a fault on a nullish \<open>v\<close>; otherwise \<open>undefined\<close> for a missing property,
  the value of a data property, and for an accessor property whatever its getter does,
  a fault of the getter being the fault of the read.
\<close>

fun read_property :: "js_prop option \<Rightarrow> error + js_value" where
  "read_property None = Inr JSUndefined"
| "read_property (Some (Data x)) = Inr x"
| "read_property (Some (Accessor outcome)) = outcome"

definition get_property :: "prototypes \<Rightarrow> js_value \<Rightarrow> string \<Rightarrow> error + js_value" where
  "get_property P v k =
     (case named_properties P v of
        None \<Rightarrow> Inl TypeError
      | Some props \<Rightarrow> read_property (map_of props k))"

fun nullish :: "js_value \<Rightarrow> bool" where
  "nullish JSUndefined = True"
| "nullish JSNull = True"
| "nullish v = False"

text \<open>\<open>isCheerio\<close>: the loose comparison \<open>x != null\<close> is false exactly on the nullish values.\<close>

definition isCheerio :: "prototypes \<Rightarrow> js_value \<Rightarrow> error + bool" where
  "isCheerio P maybeCheerio =
     (case get_property P maybeCheerio ''cheerio'' of
        Inl e \<Rightarrow> Inl e
      | Inr x \<Rightarrow> Inr (\<not> nullish x))"

text \<open>
  The specification's words: the value exposes the marker property \<open>cheerio\<close> with a
  non-nullish value.
\<close>

fun non_nullish_value :: "js_prop option \<Rightarrow> bool" where
  "non_nullish_value None = False"
| "non_nullish_value (Some (Data x)) = (\<not> nullish x)"
| "non_nullish_value (Some (Accessor (Inr x))) = (\<not> nullish x)"
| "non_nullish_value (Some (Accessor (Inl e))) = False"

definition exposes_marker :: "prototypes \<Rightarrow> js_value \<Rightarrow> bool" where
  "exposes_marker P v =
     (case named_properties P v of
        None \<Rightarrow> False
      | Some props \<Rightarrow> non_nullish_value (map_of props ''cheerio''))"

text \<open>
  The fault that reading the marker raises by itself, on a value that is not nullish:
  the one a getter (or a proxy's trap) throws, if the marker is an accessor that throws.
\<close>

fun getter_fault :: "js_prop option \<Rightarrow> error option" where
  "getter_fault (Some (Accessor (Inl e))) = Some e"
| "getter_fault p = None"

definition marker_fault :: "prototypes \<Rightarrow> js_value \<Rightarrow> error option" where
  "marker_fault P v =
     (case named_properties P v of
        None \<Rightarrow> None
      | Some props \<Rightarrow> getter_fault (map_of props ''cheerio''))"

text \<open>The prototypes of a program that has not extended them with a marker.\<close>

definition plain_prototypes :: prototypes where
  "plain_prototypes k = []"

section \<open>Objects, nodes and the store\<close>

text \<open>
  Nodes and arrays are mutable objects that the functions below share by reference, so
  the model keeps them in a store: a reference is an index into a list of objects,
  allocation appends an object, and a field assignment updates one entry. The store
  is threaded through every function that allocates or assigns.
\<close>

type_synonym ref = nat

text \<open>
  Modelled from the spec: the node type of the external node library, which is not
  among the source files. The specification describes a node as an entity with a
  mutable parent reference and zero or more children, of one of several kinds, with
  associated data such as text content and attribute sets. The children of a
  container-kind node are held in an array object of their own, referred to by the
  \<open>children\<close> field; a leaf has no such field.
\<close>

datatype node_kind =
  ElementNode | TextNode | CommentNode | DirectiveNode | CDATANode | DocumentNode

record node =
  kind :: node_kind
  data :: string
  attribs :: "(string \<times> string) list"
  parent :: "ref option"
  children :: "ref option"

text \<open>
  An object, as far as \<open>domEach\<close> and \<open>cloneDom\<close> look at it: its node fields when it
  is a node, and its elements when it exposes a \<open>length\<close> and indexed elements (an
  array, or an array-like object such as a collection wrapper; the type \<open>ArrayLike\<close> of
  the source). The expression \<open>'length' in x\<close> asks whether \<open>items\<close> is present. The
  two parts are independent: nothing keeps a program from putting a \<open>length\<close> on a node.
\<close>

record obj =
  node_part :: "node option"
  items :: "ref list option"

type_synonym heap = "obj list"

definition lookup :: "heap \<Rightarrow> ref \<Rightarrow> obj option" where
  "lookup h r = (if r < length h then Some (h ! r) else None)"

definition node_at :: "heap \<Rightarrow> ref \<Rightarrow> node option" where
  "node_at h r = (case lookup h r of None \<Rightarrow> None | Some ob \<Rightarrow> node_part ob)"

definition items_at :: "heap \<Rightarrow> ref \<Rightarrow> ref list option" where
  "items_at h r = (case lookup h r of None \<Rightarrow> None | Some ob \<Rightarrow> items ob)"

definition alloc :: "heap \<Rightarrow> obj \<Rightarrow> ref \<times> heap" where
  "alloc h ob = (length h, h @ [ob])"

definition new_array :: "ref list \<Rightarrow> obj" where
  "new_array xs = \<lparr>node_part = None, items = Some xs\<rparr>"

definition new_node :: "node \<Rightarrow> obj" where
  "new_node nd = \<lparr>node_part = Some nd, items = None\<rparr>"

text \<open>The assignment \<open>r.parent = p\<close>.\<close>

definition set_parent :: "ref \<Rightarrow> ref \<Rightarrow> heap \<Rightarrow> heap" where
  "set_parent p r h =
     (case lookup h r of
        None \<Rightarrow> h
      | Some ob \<Rightarrow>
          h[r := ob\<lparr>node_part := map_option (\<lambda>nd. nd\<lparr>parent := Some p\<rparr>) (node_part ob)\<rparr>])"

text \<open>
  Writing the elements of an array in place, as \<open>push\<close>, \<open>splice\<close> and the like do, and
  \<open>a.push(x)\<close> in particular.
\<close>

definition write_items :: "ref \<Rightarrow> ref list \<Rightarrow> heap \<Rightarrow> heap" where
  "write_items a xs h =
     (case lookup h a of None \<Rightarrow> h | Some ob \<Rightarrow> h[a := ob\<lparr>items := Some xs\<rparr>])"


subsection \<open>domEach\<close>








subsection \<open>cloneDom\<close>

text \<open>
  Modelled from the spec: the recursive-copy primitive \<open>cloneNode(node, true)\<close> of the
  external node library, which is not among the source files. By the specification it
  duplicates the node and, for container-kind nodes, recursively duplicates every
  descendant, preserving node kind, associated data and the relative order of
  children, and the copies share no mutable state with their sources. So the copy is a
  fresh node with the kind, data and attributes of the source, without a parent, and
  with a fresh array of children holding the copies of the source's children in order,
  each with the copy as its parent. On an object that is not a node the primitive
  faults. The first argument is the number of nested calls the call stack has room
  for; a descent deeper than that ends in the runtime's \<open>RangeError\<close>.
  \<open>map_cloneNode\<close> is \<open>xs.map(x => cloneNode(x, true))\<close>, left to right.
\<close>

fun cloneNode :: "nat \<Rightarrow> heap \<Rightarrow> ref \<Rightarrow> error + (ref \<times> heap)"
  and map_cloneNode :: "nat \<Rightarrow> heap \<Rightarrow> ref list \<Rightarrow> error + (ref list \<times> heap)" where
  "cloneNode 0 h r = Inl RangeError"
| "cloneNode (Suc n) h r =
     (case lookup h r of
        None \<Rightarrow> Inl TypeError
      | Some ob \<Rightarrow>
          (case node_part ob of
             None \<Rightarrow> Inl NotImplemented
           | Some nd \<Rightarrow>
               (case children nd of
                  None \<Rightarrow> Inr (alloc h (new_node (nd\<lparr>parent := None\<rparr>)))
                | Some cr \<Rightarrow>
                    (case items_at h cr of
                       None \<Rightarrow> Inl TypeError
                     | Some cs \<Rightarrow>
                         (case map_cloneNode n h cs of
                            Inl e \<Rightarrow> Inl e
                          | Inr (cs', h1) \<Rightarrow>
                              (let (cr', h2) = alloc h1 (new_array cs');
                                   (c, h3) = alloc h2
                                     (new_node (nd\<lparr>parent := None, children := Some cr'\<rparr>))
                               in Inr (c, fold (set_parent c) cs' h3)))))))"
| "map_cloneNode n h [] = Inr ([], h)"
| "map_cloneNode n h (x # xs) =
     (case cloneNode n h x of
        Inl e \<Rightarrow> Inl e
      | Inr (x', h1) \<Rightarrow>
          (case map_cloneNode n h1 xs of
             Inl e \<Rightarrow> Inl e
           | Inr (xs', h2) \<Rightarrow> Inr (x' # xs', h2)))"

text \<open>
  Modelled from the spec: the constructor \<open>new Document(children)\<close> of the external
  node library, which is not among the source files. By the specification a document
  is constructible from an initial ordered list of child nodes and is seeded with that
  list as its children: the new node keeps the array it is given, by reference.
\<close>

definition Document :: "ref \<Rightarrow> obj" where
  "Document cr =
     new_node \<lparr>kind = DocumentNode, data = [], attribs = [], parent = None, children = Some cr\<rparr>"

text \<open>
  \<open>cloneDom\<close>. The parameter \<open>dom\<close> of the source is \<open>dm\<close> here. The first branch is
  \<open>Array.prototype.map.call(dom, ...)\<close>, which builds a new array from the elements of
  \<open>dom\<close>; the second is the array literal \<open>[cloneNode(dom, true)]\<close>. Then the root is
  created around the array \<open>clone\<close>, \<open>forEach\<close> assigns it as parent to every element,
  and \<open>clone\<close> is returned. The first argument is the room on the call stack that
  the calls of \<open>cloneNode\<close> have; a fault of \<open>cloneNode\<close> is not caught.
\<close>

definition cloneDom :: "nat \<Rightarrow> heap \<Rightarrow> ref \<Rightarrow> error + (ref \<times> heap)" where
  "cloneDom stack h dm =
     (case lookup h dm of
        None \<Rightarrow> Inl TypeError
      | Some ob \<Rightarrow>
          (case
             (case items ob of
                Some els \<Rightarrow> map_cloneNode stack h els
              | None \<Rightarrow>
                  (case cloneNode stack h dm of
                     Inl e \<Rightarrow> Inl e
                   | Inr (c, h1) \<Rightarrow> Inr ([c], h1)))
           of
             Inl e \<Rightarrow> Inl e
           | Inr (cs, h1) \<Rightarrow>
               (let (clone, h2) = alloc h1 (new_array cs);
                    (root, h3) = alloc h2 (Document clone)
                in Inr (clone, fold (set_parent root) cs h3))))"

subsection \<open>Notions the properties are stated with\<close>

text \<open>
  The tree below a node, read off the store down to a given depth: kind, data,
  attributes and the trees of the children in order. It is \<open>None\<close> when the depth does
  not suffice or when the structure is broken (a child that is not a node, a
  \<open>children\<close> field that is not an array). A node or node list is well formed when
  this tree exists.
\<close>

datatype tree = Tree node_kind string "(string \<times> string) list" "tree list option"

fun tree_of :: "nat \<Rightarrow> heap \<Rightarrow> ref \<Rightarrow> tree option" where
  "tree_of 0 h r = None"
| "tree_of (Suc d) h r =
     (case node_at h r of
        None \<Rightarrow> None
      | Some nd \<Rightarrow>
          (case children nd of
             None \<Rightarrow> Some (Tree (kind nd) (data nd) (attribs nd) None)
           | Some cr \<Rightarrow>
               (case items_at h cr of
                  None \<Rightarrow> None
                | Some cs \<Rightarrow>
                    (case those (map (tree_of d h) cs) of
                       None \<Rightarrow> None
                     | Some ts \<Rightarrow> Some (Tree (kind nd) (data nd) (attribs nd) (Some ts))))))"

text \<open>The nodes an input stands for: its elements, or the input itself.\<close>

definition input_nodes :: "heap \<Rightarrow> ref \<Rightarrow> ref list" where
  "input_nodes h dm = (case items_at h dm of Some els \<Rightarrow> els | None \<Rightarrow> [dm])"

text \<open>
  The references an object holds, and a store in which every reference held points to
  an object of the store, as it does in every state of a running program.
\<close>

definition refs_of :: "obj \<Rightarrow> ref set" where
  "refs_of ob =
     (case node_part ob of
        None \<Rightarrow> {}
      | Some nd \<Rightarrow> set_option (parent nd) \<union> set_option (children nd)) \<union>
     (case items ob of None \<Rightarrow> {} | Some xs \<Rightarrow> set xs)"

definition closed_heap :: "heap \<Rightarrow> bool" where
  "closed_heap h = list_all (\<lambda>ob. \<forall>r\<in>refs_of ob. r < length h) h"

text \<open>
  The objects a program can get to from the references in \<open>S\<close>, following parent
  links, \<open>children\<close> fields and array elements.
\<close>

inductive_set reach :: "heap \<Rightarrow> ref set \<Rightarrow> ref set" for h :: heap and S :: "ref set" where
  start: "r \<in> S \<Longrightarrow> r \<in> reach h S"
| step: "a \<in> reach h S \<Longrightarrow> a < length h \<Longrightarrow> b \<in> refs_of (h ! a) \<Longrightarrow> b \<in> reach h S"

code_pred reachp .

text \<open>The list of children a node holds, read through its \<open>children\<close> field.\<close>

definition children_list :: "heap \<Rightarrow> ref \<Rightarrow> ref list option" where
  "children_list h r =
     (case node_at h r of
        None \<Rightarrow> None
      | Some nd \<Rightarrow> (case children nd of None \<Rightarrow> None | Some cr \<Rightarrow> items_at h cr))"

text \<open>
  The store \<open>h'\<close> is \<open>h\<close> with new objects after it, and the new objects refer to new
  objects only.
\<close>

definition extends :: "heap \<Rightarrow> heap \<Rightarrow> bool" where
  "extends h h' =
     (length h \<le> length h' \<and> take (length h) h' = h \<and>
      (\<forall>a. length h \<le> a \<and> a < length h' \<longrightarrow> refs_of (h' ! a) \<subseteq> {length h..<length h'}))"

subsection \<open>A store for the examples\<close>

text \<open>
  Object 0 is the element \<open>div\<close> with the children 2, a text, and 3, an element \<open>b\<close>
  with the text 5 as its child; 1 and 4 are their arrays of children. Object 6 is a
  list of the nodes 3 and 2. Object 7 is a text node that also has a \<open>length\<close> and the
  elements 2 and 5.
\<close>

definition text_node :: "string \<Rightarrow> ref option \<Rightarrow> node" where
  "text_node s p = \<lparr>kind = TextNode, data = s, attribs = [], parent = p, children = None\<rparr>"

definition element_node :: "string \<Rightarrow> ref option \<Rightarrow> ref \<Rightarrow> node" where
  "element_node s p cr =
     \<lparr>kind = ElementNode, data = s, attribs = [], parent = p, children = Some cr\<rparr>"

definition example_heap :: heap where
  "example_heap =
     [new_node (element_node ''div'' None 1),
      new_array [2, 3],
      new_node (text_node ''a'' (Some 0)),
      new_node (element_node ''b'' (Some 0) 4),
      new_array [5],
      new_node (text_node ''c'' (Some 3)),
      new_array [3, 2],
      \<lparr>node_part = Some (text_node ''t'' None), items = Some [2, 5]\<rparr>]"


section \<open>Properties of the markup sniffer\<close>

lemma indexOf_from_absent: "c \<notin> set s \<Longrightarrow> indexOf_from c s k = - 1"
  by (induction s arbitrary: k) auto

lemma indexOf_from_first:
  "i < length s \<Longrightarrow> s ! i = c \<Longrightarrow> (\<forall>j<i. s ! j \<noteq> c) \<Longrightarrow> indexOf_from c s k = int (k + i)"
proof (induction s arbitrary: k i)
  case Nil
  then show ?case by simp
next
  case (Cons x xs)
  show ?case
  proof (cases i)
    case 0
    with Cons.prems show ?thesis by simp
  next
    case (Suc m)
    from Cons.prems Suc have "x \<noteq> c" by auto
    moreover from Cons.prems Suc have "m < length xs" "xs ! m = c" "\<forall>j<m. xs ! j \<noteq> c" by auto
    then have "indexOf_from c xs (Suc k) = int (Suc k + m)" by (rule Cons.IH)
    ultimately show ?thesis using Suc by simp
  qed
qed

lemma first_occurrence_ex:
  "c \<in> set s \<Longrightarrow> \<exists>i<length s. s ! i = c \<and> (\<forall>j<i. s ! j \<noteq> c)"
proof (induction s)
  case Nil
  then show ?case by simp
next
  case (Cons x xs)
  show ?case
  proof (cases "x = c")
    case True
    then show ?thesis by (intro exI [of _ 0]) simp
  next
    case False
    with Cons obtain i where i: "i < length xs" "xs ! i = c" "\<forall>j<i. xs ! j \<noteq> c" by auto
    have "\<forall>j<Suc i. (x # xs) ! j \<noteq> c"
      using False i(3) by (auto simp: less_Suc_eq_0_disj)
    with i show ?thesis by (intro exI [of _ "Suc i"]) simp
  qed
qed

lemma no_first_lt: "0x3C \<notin> set s \<Longrightarrow> \<not> first_lt s i"
proof
  assume a: "0x3C \<notin> set s" and f: "first_lt s i"
  from f have "i < length s" by (simp add: first_lt_def)
  then have "s ! i \<in> set s" by (rule nth_mem)
  moreover from f have "s ! i = 0x3C" by (simp add: first_lt_def)
  ultimately show False using a by simp
qed

lemma first_lt_unique:
  assumes "first_lt s i"
  shows "first_lt s i' \<longleftrightarrow> i' = i"
proof
  assume f: "first_lt s i'"
  show "i' = i"
  proof (rule ccontr)
    assume "i' \<noteq> i"
    then consider "i' < i" | "i < i'" by linarith
    then show False
    proof cases
      case 1
      with assms have "s ! i' \<noteq> 0x3C" by (simp add: first_lt_def)
      with f show False by (simp add: first_lt_def)
    next
      case 2
      with f have "s ! i \<noteq> 0x3C" by (simp add: first_lt_def)
      with assms show False by (simp add: first_lt_def)
    qed
  qed
next
  assume "i' = i"
  with assms show "first_lt s i'" by simp
qed

lemma uint_letter:
  "ascii_letter c \<longleftrightarrow>
     ((uint c \<ge> 97 \<and> uint c \<le> 122) \<or> (uint c \<ge> 65 \<and> uint c \<le> 90))"
  by (simp add: ascii_letter_def word_le_def)

lemma uint_exclamation: "(uint (c :: code_unit) = 33) = (c = 0x21)"
  by (simp add: word_uint_eq_iff)

lemma str_includes_iff:
  "str_includes s c (int i + 2) \<longleftrightarrow> (\<exists>k. i + 2 \<le> k \<and> k < length s \<and> s ! k = c)"
proof
  assume "str_includes s c (int i + 2)"
  then have "c \<in> set (drop (i + 2) s)" by (simp add: str_includes_def nat_add_distrib)
  then obtain m where m: "m < length (drop (i + 2) s)" "drop (i + 2) s ! m = c"
    unfolding in_set_conv_nth by blast
  then have "i + 2 \<le> i + 2 + m \<and> i + 2 + m < length s \<and> s ! (i + 2 + m) = c"
    by simp
  then show "\<exists>k. i + 2 \<le> k \<and> k < length s \<and> s ! k = c" ..
next
  assume "\<exists>k. i + 2 \<le> k \<and> k < length s \<and> s ! k = c"
  then obtain k where k: "i + 2 \<le> k" "k < length s" "s ! k = c" by blast
  then have "k - (i + 2) < length (drop (i + 2) s)" by simp
  then have "drop (i + 2) s ! (k - (i + 2)) \<in> set (drop (i + 2) s)" by (rule nth_mem)
  moreover from k have "i + 2 + (k - (i + 2)) = k" by simp
  with k have "drop (i + 2) s ! (k - (i + 2)) = c" by (simp only: nth_drop)
  ultimately have "c \<in> set (drop (i + 2) s)" by simp
  then show "str_includes s c (int i + 2)" by (simp add: str_includes_def nat_add_distrib)
qed

text \<open>
  Claim C1. For every string \<open>s\<close>, \<open>isHtml s\<close> is true exactly when the first \<open><\<close>
  of \<open>s\<close> exists, at least two code units follow it, the code unit right after it is an
  ASCII letter or \<open>!\<close>, and a \<open>>\<close> stands two or more positions past it; in every other
  case \<open>isHtml s\<close> is false.
\<close>

theorem isHtml_iff:
  "isHtml s \<longleftrightarrow>
     (\<exists>i. first_lt s i \<and> 2 \<le> length s - (i + 1) \<and>
          (ascii_letter (s ! (i + 1)) \<or> s ! (i + 1) = 0x21) \<and>
          (\<exists>k. i + 2 \<le> k \<and> k < length s \<and> s ! k = 0x3E))"
  (is "_ \<longleftrightarrow> ?spec")
proof (cases "0x3C \<in> set s")
  case False
  then have "indexOf s 0x3C = - 1" by (simp add: indexOf_def indexOf_from_absent)
  then have "\<not> isHtml s" by (simp add: isHtml_def)
  moreover from False have "\<not> ?spec" by (simp add: no_first_lt)
  ultimately show ?thesis by simp
next
  case True
  from first_occurrence_ex [OF True]
  obtain i where i: "i < length s" "s ! i = 0x3C" "\<forall>j<i. s ! j \<noteq> 0x3C"
    by (elim exE conjE)
  then have idx: "indexOf s 0x3C = int i"
    using indexOf_from_first [of i s "0x3C" 0] by (simp add: indexOf_def)
  from i have "first_lt s i" by (simp add: first_lt_def)
  note uniq = first_lt_unique [OF this]
  let ?rest = "2 \<le> length s - (i + 1) \<and>
          (ascii_letter (s ! (i + 1)) \<or> s ! (i + 1) = 0x21) \<and>
          (\<exists>k. i + 2 \<le> k \<and> k < length s \<and> s ! k = 0x3E)"
  have spec: "?spec \<longleftrightarrow> ?rest"
    by (simp add: uniq)
  have code: "isHtml s \<longleftrightarrow> ?rest"
  proof (cases "int i > int (length s) - 3")
    case True
    then have "\<not> isHtml s" by (simp add: isHtml_def idx)
    moreover from True have "\<not> 2 \<le> length s - (i + 1)" by linarith
    ultimately show ?thesis by simp
  next
    case False
    then have room: "2 \<le> length s - (i + 1)" "i + 1 < length s" by linarith+
    then have cc: "charCodeAt s (int i + 1) = Some (uint (s ! (i + 1)))"
      by (simp add: charCodeAt_def nat_add_distrib)
    from False have "isHtml s \<longleftrightarrow>
        ((uint (s ! (i + 1)) \<ge> 97 \<and> uint (s ! (i + 1)) \<le> 122) \<or>
         (uint (s ! (i + 1)) \<ge> 65 \<and> uint (s ! (i + 1)) \<le> 90) \<or>
         uint (s ! (i + 1)) = 33) \<and> str_includes s 0x3E (int i + 2)"
      by (simp add: isHtml_def idx cc LowerA_def LowerZ_def UpperA_def UpperZ_def
          Exclamation_def)
    then show ?thesis
      using room by (simp add: str_includes_iff uint_letter uint_exclamation disj_assoc)
  qed
  show ?thesis unfolding code spec by (rule refl)
qed

text \<open>
  The theorem at \<open><div>\<close>, where the function answers true, so that the right-hand
  side holds there.
\<close>

theorem isHtml_iff_witness:
  "isHtml (utf16 ''<div>'') \<and>
   (\<exists>i. first_lt (utf16 ''<div>'') i \<and> 2 \<le> length (utf16 ''<div>'') - (i + 1) \<and>
        (ascii_letter (utf16 ''<div>'' ! (i + 1)) \<or> utf16 ''<div>'' ! (i + 1) = 0x21) \<and>
        (\<exists>k. i + 2 \<le> k \<and> k < length (utf16 ''<div>'') \<and> utf16 ''<div>'' ! k = 0x3E))"
proof -
  have "isHtml (utf16 ''<div>'')"
    by (simp add: isHtml_def utf16_def indexOf_def charCodeAt_def str_includes_def
        LowerA_def LowerZ_def UpperA_def UpperZ_def Exclamation_def)
  with isHtml_iff [of "utf16 ''<div>''"] show ?thesis by blast
qed

section \<open>Properties of the case converters\<close>

declare replace_global.simps [simp del]

lemma replace_global_pending:
  "nextPos \<le> lastIndex \<Longrightarrow>
   replace_global m f s nextPos lastIndex =
     take (lastIndex - nextPos) (drop nextPos s) @ replace_global m f s lastIndex lastIndex"
proof (induction "length s + 1 - lastIndex" arbitrary: lastIndex nextPos rule: less_induct)
  case less
  show ?case
  proof (cases "lastIndex > length s")
    case True
    then show ?thesis
      using less.prems by (simp add: replace_global.simps [of m f s _ lastIndex])
  next
    case False
    show ?thesis
    proof (cases "m s lastIndex")
      case None
      have lt: "length s + 1 - (lastIndex + 1) < length s + 1 - lastIndex"
        using False by simp
      have a: "replace_global m f s nextPos (lastIndex + 1) =
          take (lastIndex + 1 - nextPos) (drop nextPos s) @
          replace_global m f s (lastIndex + 1) (lastIndex + 1)"
        using less.hyps [OF lt, of nextPos] less.prems by simp
      have b: "replace_global m f s lastIndex (lastIndex + 1) =
          take 1 (drop lastIndex s) @ replace_global m f s (lastIndex + 1) (lastIndex + 1)"
        using less.hyps [OF lt, of lastIndex] by simp
      have c: "take (lastIndex + 1 - nextPos) (drop nextPos s) =
          take (lastIndex - nextPos) (drop nextPos s) @ take 1 (drop lastIndex s)"
        using less.prems take_add [of "lastIndex - nextPos" 1 "drop nextPos s"]
        by (simp add: Suc_diff_le)
      have "replace_global m f s nextPos lastIndex = replace_global m f s nextPos (lastIndex + 1)"
        using False None by (simp add: replace_global.simps [of m f s nextPos lastIndex])
      also note a
      also note c
      finally have lhs: "replace_global m f s nextPos lastIndex =
          (take (lastIndex - nextPos) (drop nextPos s) @ take 1 (drop lastIndex s)) @
          replace_global m f s (lastIndex + 1) (lastIndex + 1)" .
      have "replace_global m f s lastIndex lastIndex =
          replace_global m f s lastIndex (lastIndex + 1)"
        using False None by (simp add: replace_global.simps [of m f s lastIndex lastIndex])
      also note b
      finally have rhs: "replace_global m f s lastIndex lastIndex =
          take 1 (drop lastIndex s) @ replace_global m f s (lastIndex + 1) (lastIndex + 1)" .
      show ?thesis unfolding lhs rhs by simp
    next
      case (Some r)
      obtain len caps where r: "r = (len, caps)" by (cases r)
      show ?thesis
        using False Some r
        by (simp add: replace_global.simps [of m f s nextPos lastIndex]
            replace_global.simps [of m f s lastIndex lastIndex])
    qed
  qed
qed

lemma replace_global_skip:
  "i < length s \<Longrightarrow> m s i = None \<Longrightarrow>
   replace_global m f s i i = s ! i # replace_global m f s (Suc i) (Suc i)"
proof -
  assume i: "i < length s" and n: "m s i = None"
  have "replace_global m f s i i = replace_global m f s i (i + 1)"
    using i n by (simp add: replace_global.simps [of m f s i i])
  also have "\<dots> = take 1 (drop i s) @ replace_global m f s (i + 1) (i + 1)"
    using replace_global_pending [of i "i + 1" m f s] by simp
  also have "take 1 (drop i s) = [s ! i]"
    using i by (simp add: take_Suc_conv_app_nth hd_drop_conv_nth take_Suc)
  finally show ?thesis by simp
qed

lemma replace_global_end:
  "m s (length s) = None \<Longrightarrow> replace_global m f s (length s) (length s) = []"
  by (simp add: replace_global.simps [of m f s "length s" "length s"]
      replace_global.simps [of m f s "length s" "Suc (length s)"])

lemma replace_global_match:
  "i \<le> length s \<Longrightarrow> m s i = Some (len, caps) \<Longrightarrow> 0 < len \<Longrightarrow>
   replace_global m f s i i =
     f (take len (drop i s)) caps @ replace_global m f s (i + len) (i + len)"
  by (simp add: replace_global.simps [of m f s i i])

lemma camel_replace:
  "i \<le> length s \<Longrightarrow>
   replace_global camel_regex (\<lambda>_ x. toUpperCase x) s i i = toCamel (drop i s)"
proof (induction "length s - i" arbitrary: i rule: less_induct)
  case less
  let ?rg = "replace_global camel_regex (\<lambda>_ x. toUpperCase x) s"
  show ?case
  proof (cases "i = length s")
    case True
    then show ?thesis by (simp add: replace_global_end camel_regex_def)
  next
    case False
    with less.prems have i: "i < length s" by simp
    then have d: "drop i s = s ! i # drop (Suc i) s" by (simp add: Cons_nth_drop_Suc)
    have ih1: "?rg (Suc i) (Suc i) = toCamel (drop (Suc i) s)"
      using less.hyps [of "Suc i"] i by simp
    show ?thesis
    proof (cases "Suc i = length s")
      case True
      then have d1: "drop (Suc i) s = []" by simp
      show ?thesis
      proof (cases "is_separator (s ! i)")
        case True
        with \<open>Suc i = length s\<close> i have "camel_regex s i = Some (1, [])"
          by (simp add: camel_regex_def)
        with replace_global_match [of i s camel_regex 1 "[]" "\<lambda>_ x. toUpperCase x"] less.prems
        show ?thesis using ih1 d d1 True by (simp add: toUpperCase_def)
      next
        case False
        with i have "camel_regex s i = None" by (simp add: camel_regex_def)
        with replace_global_skip [of i s camel_regex "\<lambda>_ x. toUpperCase x"] i
        show ?thesis using ih1 d d1 False by simp
      qed
    next
      case False
      with i have i1: "Suc i < length s" by simp
      then have d1: "drop (Suc i) s = s ! Suc i # drop (Suc (Suc i)) s"
        by (simp add: Cons_nth_drop_Suc)
      show ?thesis
      proof (cases "is_separator (s ! i) \<and> is_word_char (s ! Suc i)")
        case True
        with i i1 have "camel_regex s i = Some (2, [s ! Suc i])"
          by (simp add: camel_regex_def)
        with replace_global_match [of i s camel_regex 2 "[s ! Suc i]" "\<lambda>_ x. toUpperCase x"]
          less.prems
        have "?rg i i = toUpperCase [s ! Suc i] @ ?rg (i + 2) (i + 2)" by simp
        moreover have "?rg (i + 2) (i + 2) = toCamel (drop (i + 2) s)"
          using less.hyps [of "i + 2"] i1 by simp
        ultimately show ?thesis using d d1 True by simp
      next
        case False
        with i i1 have "camel_regex s i = None" by (auto simp: camel_regex_def)
        with replace_global_skip [of i s camel_regex "\<lambda>_ x. toUpperCase x"] i
        show ?thesis using ih1 d d1 False by auto
      qed
    qed
  qed
qed

lemma css_replace:
  "i \<le> length s \<Longrightarrow>
   replace_global upper_regex (\<lambda>matched _. 0x2D # matched) s i i = toHyphen (drop i s)"
proof (induction "length s - i" arbitrary: i rule: less_induct)
  case less
  let ?rg = "replace_global upper_regex (\<lambda>matched _. 0x2D # matched) s"
  show ?case
  proof (cases "i = length s")
    case True
    then show ?thesis by (simp add: replace_global_end upper_regex_def)
  next
    case False
    with less.prems have i: "i < length s" by simp
    then have d: "drop i s = s ! i # drop (Suc i) s" by (simp add: Cons_nth_drop_Suc)
    have ih1: "?rg (Suc i) (Suc i) = toHyphen (drop (Suc i) s)"
      using less.hyps [of "Suc i"] i by simp
    show ?thesis
    proof (cases "0x41 \<le> s ! i \<and> s ! i \<le> 0x5A")
      case True
      with i have "upper_regex s i = Some (1, ())" by (simp add: upper_regex_def)
      with replace_global_match [of i s upper_regex 1 "()" "\<lambda>matched _. 0x2D # matched"]
        less.prems
      have "?rg i i = 0x2D # take 1 (drop i s) @ ?rg (Suc i) (Suc i)" by simp
      then show ?thesis using ih1 d True by simp
    next
      case False
      with i have "upper_regex s i = None" by (auto simp: upper_regex_def)
      with replace_global_skip [of i s upper_regex "\<lambda>matched _. 0x2D # matched"] i
      show ?thesis using ih1 d False by auto
    qed
  qed
qed


lemmas eval_replace = replace_global.simps camel_regex_def upper_regex_def is_separator_def
  is_word_char_def toUpperCase_def utf16_def

text \<open>
  Claim C4, as stated: every separator followed by a character is replaced by that
  character in upper case. The source's pattern asks for a word character after the
  separator, so on \<open>a-+b\<close> nothing is replaced, where the stated rule gives \<open>a+b\<close>.
\<close>

theorem camelCase_claimed_counterexample:
  "camelCase (utf16 ''a-+b'') = utf16 ''a-+b'' \<and>
   toCamel_claimed (utf16 ''a-+b'') = utf16 ''a+b'' \<and>
   camelCase (utf16 ''a-+b'') \<noteq> toCamel_claimed (utf16 ''a-+b'')"
  by (simp add: camelCase_def eval_replace)

text \<open>
  Claim C4, amended. For every string, \<open>camelCase\<close> scans from left to right and
  replaces each separator \<open>_\<close>, \<open>.\<close> or \<open>-\<close> that is followed by a word character (an
  ASCII letter, a digit or \<open>_\<close>) by that character in upper case, drops a separator that
  is the last character of the string, and copies everything else, a separator followed
  by any other character included; in particular \<open>foo-bar\<close> becomes \<open>fooBar\<close>,
  \<open>foo.bar_baz\<close> becomes \<open>fooBarBaz\<close> and \<open>foo-\<close> becomes \<open>foo\<close>.
\<close>

theorem camelCase_toCamel:
  "camelCase s = toCamel s \<and>
   camelCase (utf16 ''foo-bar'') = utf16 ''fooBar'' \<and>
   camelCase (utf16 ''foo.bar_baz'') = utf16 ''fooBarBaz'' \<and>
   camelCase (utf16 ''foo-'') = utf16 ''foo''"
proof -
  have "camelCase s = toCamel s" for s
    using camel_replace [of 0 s] by (simp add: camelCase_def)
  then show ?thesis
    by (simp add: utf16_def is_separator_def is_word_char_def toUpperCase_def)
qed

text \<open>
  Claim C5, as stated: a hyphen is put before every upper-case letter of the input.
  The source's pattern is \<open>[A-Z]\<close>, so an upper-case letter outside ASCII gets no
  hyphen, although the same call lower-cases it. On the three code units \<open>a\<close>,
  \<open>U+00C9\<close> (E with acute) and \<open>B\<close> the code gives \<open>a\<close>, \<open>U+00E9\<close>, hyphen, \<open>b\<close>, where
  the stated rule gives \<open>a\<close>, hyphen, \<open>U+00E9\<close>, hyphen, \<open>b\<close>.
\<close>

theorem cssCase_claimed_counterexample:
  "uppercase_letter 0xC9 \<and>
   cssCase latin1_lower [0x61, 0xC9, 0x42] = [0x61, 0xE9, 0x2D, 0x62] \<and>
   latin1_lower (toHyphen_claimed [0x61, 0xC9, 0x42]) = [0x61, 0x2D, 0xE9, 0x2D, 0x62] \<and>
   cssCase latin1_lower [0x61, 0xC9, 0x42] \<noteq> latin1_lower (toHyphen_claimed [0x61, 0xC9, 0x42])"
  by (simp add: cssCase_def replace_global.simps upper_regex_def latin1_lower_def
      uppercase_letter_def)

text \<open>
  Claim C5, amended. For every string, \<open>cssCase\<close> is the lower-casing of the input
  with a hyphen put before each of its ASCII upper-case letters, \<open>A\<close> to \<open>Z\<close>, and
  before nothing else, whatever the lower-casing does; in particular \<open>fooBar\<close>
  becomes \<open>foo-bar\<close> and \<open>FooBar\<close> becomes \<open>-foo-bar\<close>, with a leading hyphen.
\<close>

theorem cssCase_hyphen_lower:
  "cssCase toLowerCase s = toLowerCase (toHyphen s) \<and>
   cssCase latin1_lower (utf16 ''fooBar'') = utf16 ''foo-bar'' \<and>
   cssCase latin1_lower (utf16 ''FooBar'') = utf16 ''-foo-bar''"
proof -
  have "cssCase f s = f (toHyphen s)" for f s
    using css_replace [of 0 s] by (simp add: cssCase_def)
  then show ?thesis
    by (simp add: utf16_def latin1_lower_def uppercase_letter_def)
qed

section \<open>Properties of the instance detector\<close>

lemma read_marker:
  "(case read_property p of Inl e \<Rightarrow> Inl e | Inr x \<Rightarrow> Inr (\<not> nullish x)) =
     (case getter_fault p of Some e \<Rightarrow> Inl e | None \<Rightarrow> Inr (non_nullish_value p))"
proof (cases p)
  case None
  then show ?thesis by simp
next
  case (Some q)
  show ?thesis
  proof (cases q)
    case (Data x)
    with Some show ?thesis by simp
  next
    case (Accessor outcome)
    with Some show ?thesis by (cases outcome) simp_all
  qed
qed

lemma isCheerio_cases:
  "isCheerio P v =
     (if nullish v then Inl TypeError
      else (case marker_fault P v of
              Some e \<Rightarrow> Inl e
            | None \<Rightarrow> Inr (exposes_marker P v)))"
  by (cases v)
    (simp_all add: isCheerio_def get_property_def exposes_marker_def marker_fault_def
      read_marker split: option.split)





text \<open>
  Claim C8, as stated: on every value that is not nullish the property read succeeds
  and \<open>isCheerio\<close> does not fault. An object is not nullish, and when its \<open>cheerio\<close> is
  an accessor whose getter throws, the read that \<open>isCheerio\<close> makes runs the getter,
  and the fault of the getter is the fault of \<open>isCheerio\<close>.
\<close>

theorem isCheerio_getter_counterexample:
  "\<not> nullish (JSObject [(''cheerio'', Accessor (Inl RangeError))]) \<and>
   isCheerio plain_prototypes (JSObject [(''cheerio'', Accessor (Inl RangeError))]) =
     Inl RangeError"
  by (simp add: isCheerio_def get_property_def)

text \<open>
  Claim C8, amended. \<open>isCheerio\<close> faults in two cases only: with a type fault on
  \<open>null\<close> and \<open>undefined\<close>, and with the fault of the getter on a non-nullish value whose
  marker is an accessor that throws. On every other value, primitives included, the
  property read succeeds and the answer is whether the value exposes a non-nullish
  marker, so a value without one yields false. With prototypes that carry no marker, a
  number, a string, a boolean and a symbol all yield false.
\<close>

theorem isCheerio_faults:
  "(isCheerio P v = Inl e \<longleftrightarrow>
      (nullish v \<and> e = TypeError) \<or> (\<not> nullish v \<and> marker_fault P v = Some e)) \<and>
   (\<not> nullish v \<and> marker_fault P v = None \<longrightarrow> isCheerio P v = Inr (exposes_marker P v)) \<and>
   (\<not> nullish v \<and> marker_fault P v = None \<and> \<not> exposes_marker P v \<longrightarrow>
      isCheerio P v = Inr False) \<and>
   isCheerio plain_prototypes (JSNumber n) = Inr False \<and>
   isCheerio plain_prototypes (JSString s) = Inr False \<and>
   isCheerio plain_prototypes (JSBoolean b) = Inr False \<and>
   isCheerio plain_prototypes (JSSymbol k) = Inr False"
proof -
  have fault: "isCheerio P v = Inl e \<longleftrightarrow>
      (nullish v \<and> e = TypeError) \<or> (\<not> nullish v \<and> marker_fault P v = Some e)"
    by (cases "nullish v"; cases "marker_fault P v") (auto simp: isCheerio_cases)
  have answer: "\<not> nullish v \<and> marker_fault P v = None \<longrightarrow>
      isCheerio P v = Inr (exposes_marker P v)"
    by (simp add: isCheerio_cases)
  have prims: "isCheerio plain_prototypes (JSNumber n) = Inr False"
    "isCheerio plain_prototypes (JSString s) = Inr False"
    "isCheerio plain_prototypes (JSBoolean b) = Inr False"
    "isCheerio plain_prototypes (JSSymbol k) = Inr False"
    by (simp_all add: isCheerio_cases exposes_marker_def marker_fault_def plain_prototypes_def)
  from fault answer prims show ?thesis by simp
qed

text \<open>
  The theorem at the number 5, at an empty object, and at an object whose getter
  returns the marker.
\<close>

theorem isCheerio_faults_witness:
  "\<not> nullish (JSNumber 5) \<and> marker_fault plain_prototypes (JSNumber 5) = None \<and>
   \<not> exposes_marker plain_prototypes (JSNumber 5) \<and>
   isCheerio plain_prototypes (JSNumber 5) = Inr False \<and>
   \<not> nullish (JSObject []) \<and> isCheerio plain_prototypes (JSObject []) = Inr False \<and>
   marker_fault plain_prototypes (JSObject [(''cheerio'', Accessor (Inr (JSBoolean True)))]) = None \<and>
   isCheerio plain_prototypes (JSObject [(''cheerio'', Accessor (Inr (JSBoolean True)))]) =
     Inr True"
  using isCheerio_faults [of plain_prototypes "JSNumber 5"]
    isCheerio_faults [of plain_prototypes "JSObject []"]
    isCheerio_faults [of plain_prototypes
      "JSObject [(''cheerio'', Accessor (Inr (JSBoolean True)))]"]
  by (simp add: exposes_marker_def marker_fault_def plain_prototypes_def)

section \<open>The store under cloning\<close>

lemma extends_refl: "extends h h"
  by (auto simp: extends_def)

lemma extends_nth: "extends h h' \<Longrightarrow> a < length h \<Longrightarrow> h' ! a = h ! a"
  by (metis extends_def nth_take)

lemma extends_trans:
  assumes "extends h h1" and "extends h1 h2"
  shows "extends h h2"
proof -
  from assms have len: "length h \<le> length h1" "length h1 \<le> length h2"
    by (simp_all add: extends_def)
  have "take (length h) h2 = take (length h) (take (length h1) h2)"
    using len by (simp add: min_absorb1)
  also have "\<dots> = h" using assms by (simp add: extends_def)
  finally have pre: "take (length h) h2 = h" .
  have "refs_of (h2 ! a) \<subseteq> {length h..<length h2}"
    if a: "length h \<le> a" "a < length h2" for a
  proof (cases "a < length h1")
    case True
    with assms(2) have "h2 ! a = h1 ! a" by (rule extends_nth)
    moreover from assms(1) a True have "refs_of (h1 ! a) \<subseteq> {length h..<length h1}"
      by (simp add: extends_def)
    ultimately show ?thesis using len by auto
  next
    case False
    with assms(2) a have "refs_of (h2 ! a) \<subseteq> {length h1..<length h2}"
      by (simp add: extends_def)
    then show ?thesis using len by auto
  qed
  with pre len show ?thesis by (simp add: extends_def)
qed

lemma extends_alloc:
  assumes "extends h h1" and "refs_of ob \<subseteq> {length h..<Suc (length h1)}"
  shows "extends h (h1 @ [ob])"
proof -
  from assms have len: "length h \<le> length h1" and pre: "take (length h) h1 = h"
    by (simp_all add: extends_def)
  have "refs_of ((h1 @ [ob]) ! a) \<subseteq> {length h..<length (h1 @ [ob])}"
    if a: "length h \<le> a" "a < length (h1 @ [ob])" for a
  proof (cases "a < length h1")
    case True
    with assms(1) a have "refs_of (h1 ! a) \<subseteq> {length h..<length h1}"
      by (simp add: extends_def)
    with True show ?thesis by (auto simp: nth_append)
  next
    case False
    with a have "a = length h1" by simp
    with assms(2) show ?thesis by simp
  qed
  with len pre show ?thesis by (simp add: extends_def)
qed

lemma length_set_parent [simp]: "length (set_parent p r h) = length h"
  by (simp add: set_parent_def lookup_def)

lemma refs_of_reparent:
  "refs_of (ob\<lparr>node_part := map_option (\<lambda>nd. nd\<lparr>parent := Some p\<rparr>) (node_part ob)\<rparr>)
     \<subseteq> insert p (refs_of ob)"
  by (cases "node_part ob") (auto simp: refs_of_def)

lemma set_parent_nth:
  "a \<noteq> r \<Longrightarrow> set_parent p r h ! a = h ! a"
  by (simp add: set_parent_def lookup_def)

lemma extends_set_parent:
  assumes "extends h h1" and "length h \<le> r" and "length h \<le> p" and "p < length h1"
  shows "extends h (set_parent p r h1)"
proof -
  from assms have len: "length h \<le> length h1" and pre: "take (length h) h1 = h"
    by (simp_all add: extends_def)
  have "take (length h) (set_parent p r h1) = h"
    using pre assms(2) by (simp add: set_parent_def lookup_def)
  moreover have "refs_of (set_parent p r h1 ! a) \<subseteq> {length h..<length h1}"
    if a: "length h \<le> a" "a < length h1" for a
  proof -
    from assms(1) a have old: "refs_of (h1 ! a) \<subseteq> {length h..<length h1}"
      by (simp add: extends_def)
    show ?thesis
    proof (cases "a = r")
      case True
      with a have "set_parent p r h1 ! a =
          (h1 ! a)\<lparr>node_part := map_option (\<lambda>nd. nd\<lparr>parent := Some p\<rparr>) (node_part (h1 ! a))\<rparr>"
        by (simp add: set_parent_def lookup_def)
      with refs_of_reparent [where ob = "h1 ! a" and p = p] old assms(3,4) show ?thesis by auto
    next
      case False
      with old show ?thesis by (simp add: set_parent_nth)
    qed
  qed
  ultimately show ?thesis using len by (simp add: extends_def)
qed

lemma extends_fold_set_parent:
  "extends h h1 \<Longrightarrow> \<forall>r\<in>set rs. length h \<le> r \<Longrightarrow> length h \<le> p \<Longrightarrow> p < length h1 \<Longrightarrow>
   extends h (fold (set_parent p) rs h1)"
proof (induction rs arbitrary: h1)
  case Nil
  then show ?case by simp
next
  case (Cons r rs)
  from Cons.prems have "extends h (set_parent p r h1)"
    by (intro extends_set_parent) simp_all
  with Cons.prems Cons.IH [of "set_parent p r h1"] show ?case by simp
qed

lemma length_fold_set_parent [simp]: "length (fold (set_parent p) rs h) = length h"
  by (induction rs arbitrary: h) simp_all

lemma clone_extends:
  "(cloneNode n h r = Inr (r', h') \<longrightarrow>
      extends h h' \<and> length h \<le> r' \<and> r' < length h') \<and>
   (map_cloneNode n h rs = Inr (rs', h') \<longrightarrow>
      extends h h' \<and> length rs' = length rs \<and>
      (\<forall>x\<in>set rs'. length h \<le> x \<and> x < length h'))"
proof (induction n arbitrary: h r r' h' rs rs')
  case 0
  have "rs = [] \<and> rs' = [] \<and> h' = h" if "map_cloneNode 0 h rs = Inr (rs', h')"
    using that by (cases rs) simp_all
  then show ?case using extends_refl [of h] by auto
next
  case (Suc n)
  have node: "extends h h' \<and> length h \<le> r' \<and> r' < length h'"
    if c: "cloneNode (Suc n) h r = Inr (r', h')" for h r r' h'
  proof -
    from c obtain ob nd where ob: "lookup h r = Some ob" "node_part ob = Some nd"
      by (auto split: option.splits)
    show ?thesis
    proof (cases "children nd")
      case None
      with c ob have "r' = length h" "h' = h @ [new_node (nd\<lparr>parent := None\<rparr>)]"
        by (simp_all add: alloc_def)
      moreover have "refs_of (new_node (nd\<lparr>parent := None\<rparr>)) = {}"
        using None by (simp add: refs_of_def new_node_def)
      ultimately show ?thesis using extends_alloc [OF extends_refl, of _ h] by simp
    next
      case (Some cr)
      with c ob obtain cs cs' h1 where cs: "items_at h cr = Some cs"
        "map_cloneNode n h cs = Inr (cs', h1)"
        by (auto split: option.splits sum.splits)
      from Suc [of h _ _ h1 cs cs'] cs
      have ih: "extends h h1" "\<forall>x\<in>set cs'. length h \<le> x \<and> x < length h1"
        by simp_all
      let ?h2 = "h1 @ [new_array cs']"
      let ?h3 = "?h2 @ [new_node (nd\<lparr>parent := None, children := Some (length h1)\<rparr>)]"
      from c ob Some cs have res: "r' = Suc (length h1)" "h' = fold (set_parent (Suc (length h1))) cs' ?h3"
        by (auto simp: alloc_def)
      have "refs_of (new_array cs') \<subseteq> {length h..<Suc (length h1)}"
        using ih(2) by (auto simp: refs_of_def new_array_def)
      with ih(1) have e2: "extends h ?h2" by (rule extends_alloc)
      have len: "length h \<le> length h1" using ih(1) by (simp add: extends_def)
      then have "refs_of (new_node (nd\<lparr>parent := None, children := Some (length h1)\<rparr>))
          \<subseteq> {length h..<Suc (length ?h2)}"
        by (simp add: refs_of_def new_node_def)
      with e2 have e3: "extends h ?h3" by (rule extends_alloc)
      have "extends h (fold (set_parent (Suc (length h1))) cs' ?h3)"
        using e3 ih(2) len by (intro extends_fold_set_parent) auto
      with res len show ?thesis by simp
    qed
  qed
  have list: "extends h h' \<and> length rs' = length rs \<and>
      (\<forall>x\<in>set rs'. length h \<le> x \<and> x < length h')"
    if m: "map_cloneNode (Suc n) h rs = Inr (rs', h')" for h rs rs' h'
    using m
  proof (induction rs arbitrary: h rs' h')
    case Nil
    then show ?case by (simp add: extends_refl)
  next
    case (Cons x xs)
    from Cons.prems obtain x' h1 xs' where
      x: "cloneNode (Suc n) h x = Inr (x', h1)" and
      xs: "map_cloneNode (Suc n) h1 xs = Inr (xs', h')" and
      rs': "rs' = x' # xs'"
      by (auto split: sum.splits)
    from node [OF x] have a: "extends h h1" "length h \<le> x'" "x' < length h1" by simp_all
    from Cons.IH [OF xs] have b: "extends h1 h'" "length xs' = length xs"
      "\<forall>y\<in>set xs'. length h1 \<le> y \<and> y < length h'" by simp_all
    from a(1) b(1) have "extends h h'" by (rule extends_trans)
    moreover from a b have "length h \<le> length h1" "length h1 \<le> length h'"
      by (simp_all add: extends_def)
    ultimately show ?case using a b rs' by auto
  qed
  from node list show ?case by blast
qed

lemma extends_append: "extends h h' \<Longrightarrow> \<exists>zs. h' = h @ zs"
  by (metis append_take_drop_id extends_def)

lemma lookup_append [simp]: "r < length h \<Longrightarrow> lookup (h @ zs) r = lookup h r"
  by (simp add: lookup_def nth_append)

lemma node_at_Some_less: "node_at h r = Some nd \<Longrightarrow> r < length h"
  by (auto simp: node_at_def lookup_def split: if_splits)

lemma items_at_Some_less: "items_at h r = Some xs \<Longrightarrow> r < length h"
  by (auto simp: items_at_def lookup_def split: if_splits)

lemma node_at_append: "node_at h r = Some nd \<Longrightarrow> node_at (h @ zs) r = Some nd"
  using node_at_Some_less [of h r nd] by (simp add: node_at_def)

lemma items_at_append: "items_at h r = Some xs \<Longrightarrow> items_at (h @ zs) r = Some xs"
  using items_at_Some_less [of h r xs] by (simp add: items_at_def)

lemma node_at_alloc [simp]: "node_at (h @ [new_node nd]) (length h) = Some nd"
  by (simp add: node_at_def lookup_def new_node_def)

lemma items_at_alloc [simp]: "items_at (h @ [new_array xs]) (length h) = Some xs"
  by (simp add: items_at_def lookup_def new_array_def)

lemma items_at_set_parent [simp]: "items_at (set_parent p r h) a = items_at h a"
  by (cases "a = r") (auto simp: items_at_def set_parent_def lookup_def)

lemma node_at_set_parent:
  "node_at (set_parent p r h) a =
     (if a = r then map_option (\<lambda>nd. nd\<lparr>parent := Some p\<rparr>) (node_at h a) else node_at h a)"
  by (auto simp: node_at_def set_parent_def lookup_def)

lemma items_at_fold_set_parent [simp]: "items_at (fold (set_parent p) rs h) a = items_at h a"
  by (induction rs arbitrary: h) simp_all

lemma node_at_fold_set_parent:
  "node_at (fold (set_parent p) rs h) a =
     (if a \<in> set rs then map_option (\<lambda>nd. nd\<lparr>parent := Some p\<rparr>) (node_at h a) else node_at h a)"
proof (induction rs arbitrary: h)
  case Nil
  then show ?case by simp
next
  case (Cons r rs)
  show ?case
    by (cases "node_at h a") (auto simp: Cons.IH node_at_set_parent)
qed

lemma those_map_iff:
  "those (map f rs) = Some ts \<longleftrightarrow> list_all2 (\<lambda>r t. f r = Some t) rs ts"
proof (induction rs arbitrary: ts)
  case Nil
  then show ?case by auto
next
  case (Cons r rs)
  show ?case
    by (cases "f r"; cases ts) (auto simp: Cons.IH split: option.splits)
qed

lemma tree_of_Suc:
  "tree_of (Suc d) h r = Some t \<longleftrightarrow>
     (\<exists>nd. node_at h r = Some nd \<and>
        (case children nd of
           None \<Rightarrow> t = Tree (kind nd) (data nd) (attribs nd) None
         | Some cr \<Rightarrow>
             (\<exists>cs ts. items_at h cr = Some cs \<and>
                list_all2 (\<lambda>c t. tree_of d h c = Some t) cs ts \<and>
                t = Tree (kind nd) (data nd) (attribs nd) (Some ts))))"
  by (auto simp: those_map_iff [symmetric] split: option.splits)

lemma tree_of_append: "tree_of d h r = Some t \<Longrightarrow> tree_of d (h @ zs) r = Some t"
proof (induction d arbitrary: r t)
  case 0
  then show ?case by simp
next
  case (Suc d)
  from Suc.prems obtain nd where nd: "node_at h r = Some nd"
    and rest: "case children nd of
           None \<Rightarrow> t = Tree (kind nd) (data nd) (attribs nd) None
         | Some cr \<Rightarrow>
             (\<exists>cs ts. items_at h cr = Some cs \<and>
                list_all2 (\<lambda>c t. tree_of d h c = Some t) cs ts \<and>
                t = Tree (kind nd) (data nd) (attribs nd) (Some ts))"
    unfolding tree_of_Suc by blast
  show ?case
  proof (cases "children nd")
    case None
    with nd rest show ?thesis
      unfolding tree_of_Suc by (auto simp: node_at_append)
  next
    case (Some cr)
    with rest obtain cs ts where cs: "items_at h cr = Some cs"
      "list_all2 (\<lambda>c t. tree_of d h c = Some t) cs ts"
      "t = Tree (kind nd) (data nd) (attribs nd) (Some ts)" by auto
    from cs(2) have "list_all2 (\<lambda>c t. tree_of d (h @ zs) c = Some t) cs ts"
      by (rule list_all2_mono) (rule Suc.IH)
    with nd Some cs show ?thesis
      unfolding tree_of_Suc by (auto simp: node_at_append items_at_append)
  qed
qed

lemma trees_append:
  "list_all2 (\<lambda>c t. tree_of d h c = Some t) cs ts \<Longrightarrow>
   list_all2 (\<lambda>c t. tree_of d (h @ zs) c = Some t) cs ts"
  by (erule list_all2_mono) (rule tree_of_append)

lemma tree_of_set_parent [simp]: "tree_of d (set_parent p x h) r = tree_of d h r"
proof (induction d arbitrary: r)
  case 0
  then show ?case by simp
next
  case (Suc d)
  have "tree_of d (set_parent p x h) = tree_of d h"
    by (rule ext) (rule Suc.IH)
  then show ?case
    by (cases "node_at h r") (auto simp: node_at_set_parent split: option.splits)
qed

lemma tree_of_fold_set_parent [simp]: "tree_of d (fold (set_parent p) rs h) r = tree_of d h r"
  by (induction rs arbitrary: h) simp_all

lemma tree_of_Some_pos: "tree_of d h r = Some t \<Longrightarrow> 0 < d"
  by (cases d) simp_all

lemma clone_ok:
  "(tree_of d h r = Some t \<longrightarrow> d \<le> n \<longrightarrow>
      (\<exists>r' h'. cloneNode n h r = Inr (r', h') \<and> tree_of d h' r' = Some t)) \<and>
   (list_all2 (\<lambda>r t. tree_of d h r = Some t) rs ts \<longrightarrow> d \<le> n \<longrightarrow>
      (\<exists>rs' h'. map_cloneNode n h rs = Inr (rs', h') \<and>
         list_all2 (\<lambda>r t. tree_of d h' r = Some t) rs' ts))"
proof (induction n arbitrary: d h r t rs ts)
  case 0
  have "rs = [] \<and> ts = []" if "list_all2 (\<lambda>r t. tree_of 0 h r = Some t) rs ts"
    using that by (cases rs; cases ts) simp_all
  then show ?case using tree_of_Some_pos [of d h r t] by auto
next
  case (Suc n)
  have node: "\<exists>r' h'. cloneNode (Suc n) h r = Inr (r', h') \<and> tree_of d h' r' = Some t"
    if t: "tree_of d h r = Some t" and d: "d \<le> Suc n" for d h r t
  proof -
    from t obtain d' where d': "d = Suc d'" by (cases d) simp_all
    with d have dn: "d' \<le> n" by simp
    from t d' have "tree_of (Suc d') h r = Some t" by simp
    then obtain nd where nd: "node_at h r = Some nd"
      and rest: "case children nd of
           None \<Rightarrow> t = Tree (kind nd) (data nd) (attribs nd) None
         | Some cr \<Rightarrow>
             (\<exists>cs ts. items_at h cr = Some cs \<and>
                list_all2 (\<lambda>c t. tree_of d' h c = Some t) cs ts \<and>
                t = Tree (kind nd) (data nd) (attribs nd) (Some ts))"
      unfolding tree_of_Suc by blast
    from nd obtain ob where ob: "lookup h r = Some ob" "node_part ob = Some nd"
      by (auto simp: node_at_def split: option.splits)
    show ?thesis
    proof (cases "children nd")
      case None
      with ob have "cloneNode (Suc n) h r = Inr (length h, h @ [new_node (nd\<lparr>parent := None\<rparr>)])"
        by (simp add: alloc_def)
      moreover have "tree_of d (h @ [new_node (nd\<lparr>parent := None\<rparr>)]) (length h) = Some t"
        using None rest d' by (simp add: tree_of_Suc)
      ultimately show ?thesis by blast
    next
      case (Some cr)
      with rest obtain cs ts where cs: "items_at h cr = Some cs"
        "list_all2 (\<lambda>c t. tree_of d' h c = Some t) cs ts"
        "t = Tree (kind nd) (data nd) (attribs nd) (Some ts)" by auto
      from Suc [of d' h _ _ cs ts] cs(2) dn obtain cs' h1 where
        m: "map_cloneNode n h cs = Inr (cs', h1)" and
        ts: "list_all2 (\<lambda>c t. tree_of d' h1 c = Some t) cs' ts"
        by blast
      let ?nd = "nd\<lparr>parent := None, children := Some (length h1)\<rparr>"
      let ?h3 = "(h1 @ [new_array cs']) @ [new_node ?nd]"
      let ?h' = "fold (set_parent (Suc (length h1))) cs' ?h3"
      from ob Some cs m have "cloneNode (Suc n) h r = Inr (Suc (length h1), ?h')"
        by (simp add: alloc_def)
      moreover have "tree_of d ?h' (Suc (length h1)) = Some t"
      proof -
        have "node_at ?h3 (Suc (length h1)) = Some ?nd"
          using node_at_alloc [of "h1 @ [new_array cs']" ?nd] by simp
        moreover have "items_at ?h3 (length h1) = Some cs'"
          using items_at_append [of "h1 @ [new_array cs']" "length h1" cs' "[new_node ?nd]"]
          by simp
        moreover from ts have "list_all2 (\<lambda>c t. tree_of d' (h1 @ [new_array cs', new_node ?nd]) c = Some t) cs' ts"
          by (rule trees_append)
        then have "list_all2 (\<lambda>c t. tree_of d' ?h3 c = Some t) cs' ts"
          by simp
        ultimately have "tree_of (Suc d') ?h3 (Suc (length h1)) = Some t"
          unfolding tree_of_Suc using cs(3) by simp
        then show ?thesis using d' by simp
      qed
      ultimately show ?thesis by blast
    qed
  qed
  have list: "\<exists>rs' h'. map_cloneNode (Suc n) h rs = Inr (rs', h') \<and>
         list_all2 (\<lambda>r t. tree_of d h' r = Some t) rs' ts"
    if "list_all2 (\<lambda>r t. tree_of d h r = Some t) rs ts" and d: "d \<le> Suc n" for d h rs ts
    using that(1)
  proof (induction rs arbitrary: h ts)
    case Nil
    then show ?case by simp
  next
    case (Cons x xs)
    from Cons.prems obtain t ts' where ts: "ts = t # ts'" and
      hd: "tree_of d h x = Some t" and
      tl: "list_all2 (\<lambda>r t. tree_of d h r = Some t) xs ts'"
      by (auto simp: list_all2_Cons1)
    from node [OF hd d] obtain x' h1 where
      x: "cloneNode (Suc n) h x = Inr (x', h1)" "tree_of d h1 x' = Some t" by blast
    from clone_extends [of "Suc n" h x x' h1] x(1) obtain zs where zs: "h1 = h @ zs"
      using extends_append by blast
    from tl have "list_all2 (\<lambda>r t. tree_of d h1 r = Some t) xs ts'"
      unfolding zs by (rule trees_append)
    from Cons.IH [OF this] obtain xs' h' where
      xs: "map_cloneNode (Suc n) h1 xs = Inr (xs', h')"
      "list_all2 (\<lambda>r t. tree_of d h' r = Some t) xs' ts'" by blast
    from clone_extends [of "Suc n" h1 _ _ h' xs xs'] xs(1) obtain zs' where zs': "h' = h1 @ zs'"
      using extends_append by blast
    from x(2) have "tree_of d h' x' = Some t" unfolding zs' by (rule tree_of_append)
    with x xs ts show ?case by simp
  qed
  from node list show ?case by blast
qed

lemma cloneNode_is_node:
  assumes "cloneNode n h r = Inr (r', h')"
  shows "\<exists>nd. node_at h' r' = Some nd"
proof (cases n)
  case 0
  with assms show ?thesis by simp
next
  case (Suc m)
  with assms obtain ob nd where ob: "lookup h r = Some ob" "node_part ob = Some nd"
    by (auto split: option.splits)
  show ?thesis
  proof (cases "children nd")
    case None
    with assms Suc ob show ?thesis by (auto simp: alloc_def)
  next
    case (Some cr)
    with assms Suc ob obtain cs cs' h1 where cs: "items_at h cr = Some cs"
      "map_cloneNode m h cs = Inr (cs', h1)"
      by (auto split: option.splits sum.splits)
    let ?nd = "nd\<lparr>parent := None, children := Some (length h1)\<rparr>"
    let ?h3 = "(h1 @ [new_array cs']) @ [new_node ?nd]"
    from assms Suc ob Some cs
    have res: "r' = Suc (length h1)" "h' = fold (set_parent (Suc (length h1))) cs' ?h3"
      by (auto simp: alloc_def)
    have "node_at ?h3 (Suc (length h1)) = Some ?nd"
      using node_at_alloc [of "h1 @ [new_array cs']" ?nd] by simp
    then show ?thesis
      unfolding res by (simp only: node_at_fold_set_parent split: if_splits) simp
  qed
qed

lemma map_cloneNode_nodes:
  "map_cloneNode n h rs = Inr (rs', h') \<Longrightarrow> \<forall>x\<in>set rs'. \<exists>nd. node_at h' x = Some nd"
proof (induction rs arbitrary: h rs' h')
  case Nil
  then show ?case by simp
next
  case (Cons x xs)
  from Cons.prems obtain x' h1 xs' where
    x: "cloneNode n h x = Inr (x', h1)" and
    xs: "map_cloneNode n h1 xs = Inr (xs', h')" and
    rs': "rs' = x' # xs'"
    by (auto split: sum.splits)
  from cloneNode_is_node [OF x] obtain nd where nd: "node_at h1 x' = Some nd" by blast
  from clone_extends [of n h1 _ _ h' xs xs'] xs obtain zs where "h' = h1 @ zs"
    using extends_append by blast
  with nd have "node_at h' x' = Some nd" by (simp add: node_at_append)
  with Cons.IH [OF xs] rs' show ?case by simp
qed

lemma cloneDom_shape:
  assumes "cloneDom stack h dm = Inr (clone, h')"
  shows "\<exists>cs h1. dm < length h \<and>
     (case items_at h dm of
        Some els \<Rightarrow> map_cloneNode stack h els = Inr (cs, h1)
      | None \<Rightarrow> (\<exists>c. cloneNode stack h dm = Inr (c, h1) \<and> cs = [c])) \<and>
     clone = length h1 \<and>
     h' = fold (set_parent (Suc (length h1))) cs (h1 @ [new_array cs, Document (length h1)])"
proof -
  from assms obtain ob where ob: "lookup h dm = Some ob"
    by (auto simp: cloneDom_def split: option.splits)
  then have dm: "dm < length h" and it: "items_at h dm = items ob"
    by (auto simp: lookup_def items_at_def split: if_splits)
  show ?thesis
  proof (cases "items ob")
    case None
    with assms ob obtain c h1 where c: "cloneNode stack h dm = Inr (c, h1)"
      by (auto simp: cloneDom_def split: sum.splits)
    with assms ob None have "clone = length h1"
      "h' = fold (set_parent (Suc (length h1))) [c] (h1 @ [new_array [c], Document (length h1)])"
      by (auto simp: cloneDom_def alloc_def)
    with dm it None c show ?thesis by auto
  next
    case (Some els)
    with assms ob obtain cs h1 where c: "map_cloneNode stack h els = Inr (cs, h1)"
      by (auto simp: cloneDom_def split: sum.splits)
    with assms ob Some have "clone = length h1"
      "h' = fold (set_parent (Suc (length h1))) cs (h1 @ [new_array cs, Document (length h1)])"
      by (auto simp: cloneDom_def alloc_def)
    with dm it Some c show ?thesis by auto
  qed
qed

lemma cloneDom_clones:
  assumes "cloneDom stack h dm = Inr (clone, h')"
  shows "\<exists>cs h1. dm < length h \<and> map_cloneNode stack h (input_nodes h dm) = Inr (cs, h1) \<and>
     clone = length h1 \<and>
     h' = fold (set_parent (Suc (length h1))) cs (h1 @ [new_array cs, Document (length h1)])"
proof -
  from cloneDom_shape [OF assms] obtain cs h1 where s: "dm < length h"
     "case items_at h dm of
        Some els \<Rightarrow> map_cloneNode stack h els = Inr (cs, h1)
      | None \<Rightarrow> (\<exists>c. cloneNode stack h dm = Inr (c, h1) \<and> cs = [c])"
     "clone = length h1"
     "h' = fold (set_parent (Suc (length h1))) cs (h1 @ [new_array cs, Document (length h1)])"
    by blast
  from s(2) have "map_cloneNode stack h (input_nodes h dm) = Inr (cs, h1)"
    by (cases stack) (auto simp: input_nodes_def split: option.splits)
  with s show ?thesis by blast
qed

lemma cloneDom_facts:
  assumes "cloneDom stack h dm = Inr (clone, h')"
  shows "\<exists>cs. extends h h' \<and> length h \<le> clone \<and> Suc clone < length h' \<and>
     items_at h' clone = Some cs \<and> length cs = length (input_nodes h dm) \<and>
     node_at h' (Suc clone) = Some \<lparr>kind = DocumentNode, data = [], attribs = [],
        parent = None, children = Some clone\<rparr> \<and>
     (\<forall>c\<in>set cs. length h \<le> c \<and> c < clone \<and>
        (\<exists>nd. node_at h' c = Some nd \<and> parent nd = Some (Suc clone)))"
proof -
  from cloneDom_clones [OF assms] obtain cs h1 where s: "dm < length h"
     "map_cloneNode stack h (input_nodes h dm) = Inr (cs, h1)"
     "clone = length h1"
     "h' = fold (set_parent (Suc (length h1))) cs (h1 @ [new_array cs, Document (length h1)])"
    by blast
  let ?h3 = "h1 @ [new_array cs, Document (length h1)]"
  from clone_extends [of stack h _ _ h1 "input_nodes h dm" cs] s(2)
  have e1: "extends h h1" and len: "length cs = length (input_nodes h dm)"
    and rng: "\<forall>x\<in>set cs. length h \<le> x \<and> x < length h1" by simp_all
  from e1 have l1: "length h \<le> length h1" by (simp add: extends_def)
  have "refs_of (new_array cs) \<subseteq> {length h..<Suc (length h1)}"
    using rng by (auto simp: refs_of_def new_array_def)
  with e1 have e2: "extends h (h1 @ [new_array cs])" by (rule extends_alloc)
  have "refs_of (Document (length h1)) \<subseteq> {length h..<Suc (length (h1 @ [new_array cs]))}"
    using l1 by (simp add: refs_of_def Document_def new_node_def)
  with e2 have "extends h ((h1 @ [new_array cs]) @ [Document (length h1)])"
    by (rule extends_alloc)
  then have e3: "extends h ?h3" by simp
  have e: "extends h h'"
    unfolding s(4) using e3 rng l1 by (intro extends_fold_set_parent) auto
  have it: "items_at h' clone = Some cs"
    unfolding s(3,4) using items_at_append [of "h1 @ [new_array cs]" "length h1" cs
        "[Document (length h1)]"] by simp
  have root3: "node_at ?h3 (Suc (length h1)) = Some \<lparr>kind = DocumentNode, data = [],
      attribs = [], parent = None, children = Some (length h1)\<rparr>"
    using node_at_alloc [of "h1 @ [new_array cs]"] by (simp add: Document_def)
  have "Suc (length h1) \<notin> set cs" using rng by auto
  with root3 have root: "node_at h' (Suc clone) = Some \<lparr>kind = DocumentNode, data = [],
      attribs = [], parent = None, children = Some clone\<rparr>"
    unfolding s(3,4) by (simp only: node_at_fold_set_parent if_False)
  have par: "\<exists>nd. node_at h' c = Some nd \<and> parent nd = Some (Suc clone)" if c: "c \<in> set cs" for c
  proof -
    from map_cloneNode_nodes [OF s(2)] c obtain nd where "node_at h1 c = Some nd" by blast
    then have "node_at ?h3 c = Some nd" by (rule node_at_append)
    with c show ?thesis unfolding s(3,4) by (simp add: node_at_fold_set_parent)
  qed
  from e it len root par rng l1 s(3,4) show ?thesis by auto
qed

lemma closed_heap_refs: "closed_heap h \<Longrightarrow> a < length h \<Longrightarrow> r \<in> refs_of (h ! a) \<Longrightarrow> r < length h"
  by (auto simp: closed_heap_def list_all_length)

lemma reach_fresh:
  assumes "extends h h'" and "S \<subseteq> {length h..<length h'}"
  shows "reach h' S \<subseteq> {length h..<length h'}"
proof
  fix x assume "x \<in> reach h' S"
  then show "x \<in> {length h..<length h'}"
  proof induction
    case (start r)
    with assms(2) show ?case by auto
  next
    case (step a b)
    with assms(1) have "refs_of (h' ! a) \<subseteq> {length h..<length h'}"
      by (simp add: extends_def)
    with step show ?case by auto
  qed
qed

lemma reach_old:
  assumes "extends h h'" and "closed_heap h"
  shows "reach h' {..<length h} \<subseteq> {..<length h}"
proof
  fix x assume "x \<in> reach h' {..<length h}"
  then show "x \<in> {..<length h}"
  proof induction
    case (start r)
    then show ?case .
  next
    case (step a b)
    then have a: "a < length h" by simp
    with assms(1) have "h' ! a = h ! a" by (rule extends_nth)
    with step a closed_heap_refs [OF assms(2), of a b] show ?case by simp
  qed
qed

lemma extends_reads:
  assumes "extends h h'" and "a < length h"
  shows "node_at h' a = node_at h a" and "items_at h' a = items_at h a"
proof -
  from assms have "h' ! a = h ! a" "a < length h'"
    by (auto simp: extends_nth extends_def)
  with assms(2) show "node_at h' a = node_at h a" "items_at h' a = items_at h a"
    by (simp_all add: node_at_def items_at_def lookup_def)
qed

lemma extends_children_list:
  assumes "extends h h'" and "closed_heap h" and "a < length h"
  shows "children_list h' a = children_list h a"
proof (cases "node_at h a")
  case None
  with assms show ?thesis by (simp add: children_list_def extends_reads)
next
  case (Some nd)
  show ?thesis
  proof (cases "children nd")
    case None
    with Some assms show ?thesis by (simp add: children_list_def extends_reads)
  next
    case cr: (Some cr)
    from Some assms(3) have "node_part (h ! a) = Some nd"
      by (simp add: node_at_def lookup_def)
    with cr have "cr \<in> refs_of (h ! a)" by (simp add: refs_of_def)
    with assms have "cr < length h" by (auto dest: closed_heap_refs)
    with Some cr assms show ?thesis by (simp add: children_list_def extends_reads)
  qed
qed

lemma wf_inputs_trees:
  assumes "\<forall>r\<in>set rs. tree_of d h r \<noteq> None"
  shows "list_all2 (\<lambda>r t. tree_of d h r = Some t) rs (map (\<lambda>r. the (tree_of d h r)) rs)"
  using assms by (induction rs) auto

lemma trees_map:
  "list_all2 (\<lambda>r t. f r = Some t) rs ts \<Longrightarrow> map f rs = map Some ts"
  by (induction rs ts rule: list_all2_induct) simp_all

lemma items_at_root_heap:
  "items_at (fold (set_parent p) cs (h1 @ [new_array cs, ob])) (length h1) = Some cs"
  using items_at_append [of "h1 @ [new_array cs]" "length h1" cs "[ob]"] by simp

lemma cloneDom_returns:
  assumes "dm < length h" and "\<forall>r\<in>set (input_nodes h dm). tree_of d h r \<noteq> None" and "d \<le> stack"
  shows "\<exists>clone h' out. cloneDom stack h dm = Inr (clone, h') \<and> items_at h' clone = Some out \<and>
     map (tree_of d h') out = map (tree_of d h) (input_nodes h dm)"
proof -
  let ?ins = "input_nodes h dm"
  let ?ts = "map (\<lambda>r. the (tree_of d h r)) ?ins"
  from assms(2) have ts: "list_all2 (\<lambda>r t. tree_of d h r = Some t) ?ins ?ts"
    by (rule wf_inputs_trees)
  with clone_ok [of d h _ _ stack ?ins ?ts] assms(3) obtain cs h1 where
    m: "map_cloneNode stack h ?ins = Inr (cs, h1)" and
    cs: "list_all2 (\<lambda>r t. tree_of d h1 r = Some t) cs ?ts" by blast
  let ?h' = "fold (set_parent (Suc (length h1))) cs (h1 @ [new_array cs, Document (length h1)])"
  from assms(1) obtain ob where ob: "lookup h dm = Some ob" "items_at h dm = items ob"
    by (simp add: lookup_def items_at_def)
  have "cloneDom stack h dm = Inr (length h1, ?h')"
  proof (cases "items ob")
    case None
    with ob have "?ins = [dm]" by (simp add: input_nodes_def)
    with m obtain c where "cloneNode stack h dm = Inr (c, h1)" "cs = [c]"
      by (auto split: sum.splits)
    with ob None show ?thesis by (simp add: cloneDom_def alloc_def)
  next
    case (Some els)
    with ob have "?ins = els" by (simp add: input_nodes_def)
    with m ob Some show ?thesis by (simp add: cloneDom_def alloc_def)
  qed
  moreover have "items_at ?h' (length h1) = Some cs" by (rule items_at_root_heap)
  moreover have "map (tree_of d ?h') cs = map (tree_of d h) ?ins"
  proof -
    from cs have "list_all2 (\<lambda>r t. tree_of d (h1 @ [new_array cs, Document (length h1)]) r = Some t) cs ?ts"
      by (rule trees_append)
    then have "map (tree_of d ?h') cs = map Some ?ts"
      using trees_map [of "tree_of d ?h'" cs ?ts] by simp
    also have "\<dots> = map (tree_of d h) ?ins" using trees_map [OF ts] by simp
    finally show ?thesis .
  qed
  ultimately show ?thesis by blast
qed


section \<open>Properties of cloneDom\<close>

lemma example_heap_length: "length example_heap = 8"
  by (simp add: example_heap_def)

lemma example_heap_closed: "closed_heap example_heap"
  by (simp add: closed_heap_def example_heap_def refs_of_def new_node_def new_array_def
      element_node_def text_node_def)

lemma example_heap_items:
  "items_at example_heap 0 = None"
  "items_at example_heap 1 = Some [2, 3]"
  "items_at example_heap (Suc 0) = Some [2, 3]"
  "items_at example_heap 2 = None"
  "items_at example_heap 3 = None"
  "items_at example_heap 4 = Some [5]"
  "items_at example_heap 5 = None"
  "items_at example_heap 6 = Some [3, 2]"
  "items_at example_heap 7 = Some [2, 5]"
  by (simp_all add: items_at_def lookup_def example_heap_def new_node_def new_array_def)

lemma example_heap_nodes:
  "node_at example_heap 0 = Some (element_node ''div'' None 1)"
  "node_at example_heap 2 = Some (text_node ''a'' (Some 0))"
  "node_at example_heap 3 = Some (element_node ''b'' (Some 0) 4)"
  "node_at example_heap 5 = Some (text_node ''c'' (Some 3))"
  "node_at example_heap 7 = Some (text_node ''t'' None)"
  by (simp_all add: node_at_def lookup_def example_heap_def new_node_def new_array_def)

lemma example_heap_trees:
  "tree_of 3 example_heap 5 = Some (Tree TextNode ''c'' [] None)"
  "tree_of 3 example_heap 2 = Some (Tree TextNode ''a'' [] None)"
  "tree_of 3 example_heap 3 =
     Some (Tree ElementNode ''b'' [] (Some [Tree TextNode ''c'' [] None]))"
  "tree_of 3 example_heap 0 =
     Some (Tree ElementNode ''div'' []
       (Some [Tree TextNode ''a'' [] None,
              Tree ElementNode ''b'' [] (Some [Tree TextNode ''c'' [] None])]))"
  by code_simp+

text \<open>
  Claim C2. Take a well-formed input in a store without dangling references, and a
  call stack that has room for the depth of the input. Then \<open>cloneDom\<close> returns a
  list \<open>clone\<close> that is a new object; it has one element when the input is a single
  node (an object without a \<open>length\<close>) and as many elements as the input when the input
  is a list; its elements are new objects, the \<open>i\<close>-th being a node with the tree of the
  \<open>i\<close>-th input, so the order is kept; and the parent of each of them is one and the
  same \<open>root\<close>, a document node created in this call, which no node of the store had as
  its parent before.
\<close>

theorem cloneDom_length_order_parent:
  assumes "dm < length h"
    and "list_all (\<lambda>r. tree_of d h r \<noteq> None) (input_nodes h dm)"
    and "d \<le> stack"
    and "closed_heap h"
  shows "\<exists>clone h' out root.
     cloneDom stack h dm = Inr (clone, h') \<and>
     items_at h' clone = Some out \<and>
     length h \<le> clone \<and>
     length out = length (input_nodes h dm) \<and>
     (items_at h dm = None \<longrightarrow> length out = 1) \<and>
     map (tree_of d h') out = map (tree_of d h) (input_nodes h dm) \<and>
     (\<forall>c\<in>set out. length h \<le> c \<and> (\<exists>nd. node_at h' c = Some nd \<and> parent nd = Some root)) \<and>
     length h \<le> root \<and>
     (\<exists>nd. node_at h' root = Some nd \<and> kind nd = DocumentNode) \<and>
     (\<forall>a nd. node_at h a = Some nd \<longrightarrow> parent nd \<noteq> Some root)"
proof -
  from assms(2) have wf: "\<forall>r\<in>set (input_nodes h dm). tree_of d h r \<noteq> None"
    by (simp add: list_all_iff)
  from cloneDom_returns [OF assms(1) wf assms(3)] obtain clone h' out where
    r: "cloneDom stack h dm = Inr (clone, h')" "items_at h' clone = Some out"
    "map (tree_of d h') out = map (tree_of d h) (input_nodes h dm)" by blast
  from cloneDom_facts [OF r(1)] r(2) have f: "length h \<le> clone"
    "length out = length (input_nodes h dm)"
    "node_at h' (Suc clone) = Some \<lparr>kind = DocumentNode, data = [], attribs = [],
        parent = None, children = Some clone\<rparr>"
    "\<forall>c\<in>set out. length h \<le> c \<and> c < clone \<and>
        (\<exists>nd. node_at h' c = Some nd \<and> parent nd = Some (Suc clone))"
    by auto
  have single: "items_at h dm = None \<longrightarrow> length out = 1"
    using f(2) by (simp add: input_nodes_def)
  have old: "parent nd \<noteq> Some (Suc clone)" if "node_at h a = Some nd" for a nd
  proof
    assume p: "parent nd = Some (Suc clone)"
    from that have a: "a < length h" by (rule node_at_Some_less)
    with that have "node_part (h ! a) = Some nd" by (simp add: node_at_def lookup_def)
    with p have "Suc clone \<in> refs_of (h ! a)" by (simp add: refs_of_def)
    with assms(4) a have "Suc clone < length h" by (rule closed_heap_refs)
    with f(1) show False by simp
  qed
  have all: "cloneDom stack h dm = Inr (clone, h') \<and>
     items_at h' clone = Some out \<and>
     length h \<le> clone \<and>
     length out = length (input_nodes h dm) \<and>
     (items_at h dm = None \<longrightarrow> length out = 1) \<and>
     map (tree_of d h') out = map (tree_of d h) (input_nodes h dm) \<and>
     (\<forall>c\<in>set out. length h \<le> c \<and> (\<exists>nd. node_at h' c = Some nd \<and> parent nd = Some (Suc clone))) \<and>
     length h \<le> Suc clone \<and>
     (\<exists>nd. node_at h' (Suc clone) = Some nd \<and> kind nd = DocumentNode) \<and>
     (\<forall>a nd. node_at h a = Some nd \<longrightarrow> parent nd \<noteq> Some (Suc clone))"
    using r f single old by simp
  show ?thesis
    by (intro exI [of _ clone] exI [of _ h'] exI [of _ out] exI [of _ "Suc clone"]) (rule all)
qed


text \<open>The theorem at the list of the nodes 3 and 2 of the example store.\<close>

theorem cloneDom_length_order_parent_witness:
  "\<exists>clone h' out root.
     cloneDom 3 example_heap 6 = Inr (clone, h') \<and>
     items_at h' clone = Some out \<and>
     length example_heap \<le> clone \<and>
     length out = length (input_nodes example_heap 6) \<and>
     (items_at example_heap 6 = None \<longrightarrow> length out = 1) \<and>
     map (tree_of 3 h') out = map (tree_of 3 example_heap) (input_nodes example_heap 6) \<and>
     (\<forall>c\<in>set out. length example_heap \<le> c \<and>
        (\<exists>nd. node_at h' c = Some nd \<and> parent nd = Some root)) \<and>
     length example_heap \<le> root \<and>
     (\<exists>nd. node_at h' root = Some nd \<and> kind nd = DocumentNode) \<and>
     (\<forall>a nd. node_at example_heap a = Some nd \<longrightarrow> parent nd \<noteq> Some root)"
proof -
  have a: "6 < length example_heap" by (simp add: example_heap_length)
  have b: "list_all (\<lambda>r. tree_of 3 example_heap r \<noteq> None) (input_nodes example_heap 6)"
    by (simp add: input_nodes_def example_heap_items example_heap_trees)
  have c: "(3::nat) \<le> 3" by simp
  from cloneDom_length_order_parent [OF a b c example_heap_closed] show ?thesis .
qed

text \<open>
  Claim C3. Under the same conditions \<open>cloneDom\<close> returns, and it leaves every object
  of the store as it was, so every node has the parent and the list of children it had.
  Every object that can be reached from the returned list (the clones, their subtrees,
  the root) is new, and no object of the old store reaches a new one. Hence an
  assignment to an object reachable from the result leaves the old store as it was, and
  an assignment to an object of the old store leaves every object reachable from the
  result as it was.
\<close>

theorem cloneDom_frame_independent:
  assumes "dm < length h"
    and "list_all (\<lambda>r. tree_of d h r \<noteq> None) (input_nodes h dm)"
    and "d \<le> stack"
    and "closed_heap h"
  shows "\<exists>clone h'.
     cloneDom stack h dm = Inr (clone, h') \<and>
     take (length h) h' = h \<and>
     (\<forall>a<length h. node_at h' a = node_at h a \<and> children_list h' a = children_list h a) \<and>
     reach h' {clone} \<subseteq> {length h..<length h'} \<and>
     reach h' {..<length h} \<subseteq> {..<length h} \<and>
     (\<forall>a\<in>reach h' {clone}. \<forall>ob. take (length h) (h'[a := ob]) = h) \<and>
     (\<forall>b<length h. \<forall>ob. \<forall>a\<in>reach h' {clone}. h'[b := ob] ! a = h' ! a)"
proof -
  from assms(2) have wf: "\<forall>r\<in>set (input_nodes h dm). tree_of d h r \<noteq> None"
    by (simp add: list_all_iff)
  from cloneDom_returns [OF assms(1) wf assms(3)] obtain clone h' where
    r: "cloneDom stack h dm = Inr (clone, h')" by blast
  from cloneDom_facts [OF r] have e: "extends h h'" and c: "length h \<le> clone" "clone < length h'"
    by auto
  from e have pre: "take (length h) h' = h" by (simp add: extends_def)
  from e c have fresh: "reach h' {clone} \<subseteq> {length h..<length h'}"
    by (intro reach_fresh) auto
  from e assms(4) have old: "reach h' {..<length h} \<subseteq> {..<length h}" by (rule reach_old)
  have reads: "\<forall>a<length h. node_at h' a = node_at h a \<and> children_list h' a = children_list h a"
    using e assms(4) by (simp add: extends_reads extends_children_list)
  have w1: "\<forall>a\<in>reach h' {clone}. \<forall>ob. take (length h) (h'[a := ob]) = h"
    using fresh pre by (auto simp: take_update_cancel)
  have w2: "\<forall>b<length h. \<forall>ob. \<forall>a\<in>reach h' {clone}. h'[b := ob] ! a = h' ! a"
    using fresh by auto
  from r pre reads fresh old w1 w2 have "cloneDom stack h dm = Inr (clone, h') \<and>
     take (length h) h' = h \<and>
     (\<forall>a<length h. node_at h' a = node_at h a \<and> children_list h' a = children_list h a) \<and>
     reach h' {clone} \<subseteq> {length h..<length h'} \<and>
     reach h' {..<length h} \<subseteq> {..<length h} \<and>
     (\<forall>a\<in>reach h' {clone}. \<forall>ob. take (length h) (h'[a := ob]) = h) \<and>
     (\<forall>b<length h. \<forall>ob. \<forall>a\<in>reach h' {clone}. h'[b := ob] ! a = h' ! a)"
    by (intro conjI)
  then show ?thesis by (intro exI [of _ clone] exI [of _ h'])
qed


text \<open>The theorem at the single node 0 of the example store.\<close>

theorem cloneDom_frame_independent_witness:
  "\<exists>clone h'.
     cloneDom 3 example_heap 0 = Inr (clone, h') \<and>
     take (length example_heap) h' = example_heap \<and>
     (\<forall>a<length example_heap. node_at h' a = node_at example_heap a \<and>
        children_list h' a = children_list example_heap a) \<and>
     reach h' {clone} \<subseteq> {length example_heap..<length h'} \<and>
     reach h' {..<length example_heap} \<subseteq> {..<length example_heap} \<and>
     (\<forall>a\<in>reach h' {clone}. \<forall>ob. take (length example_heap) (h'[a := ob]) = example_heap) \<and>
     (\<forall>b<length example_heap. \<forall>ob. \<forall>a\<in>reach h' {clone}. h'[b := ob] ! a = h' ! a)"
proof -
  have a: "0 < length example_heap" by (simp add: example_heap_length)
  have b: "list_all (\<lambda>r. tree_of 3 example_heap r \<noteq> None) (input_nodes example_heap 0)"
    by (simp add: input_nodes_def example_heap_items example_heap_trees)
  have c: "(3::nat) \<le> 3" by simp
  from cloneDom_frame_independent [OF a b c example_heap_closed] show ?thesis .
qed

lemma items_at_write_items:
  "a < length h \<Longrightarrow> items_at (write_items a xs h) a = Some xs"
  by (simp add: write_items_def items_at_def lookup_def)

lemma length_write_items [simp]: "length (write_items a xs h) = length h"
  by (simp add: write_items_def lookup_def)

lemma node_at_write_items [simp]: "node_at (write_items a xs h) r = node_at h r"
  by (cases "r = a") (auto simp: write_items_def node_at_def lookup_def)


text \<open>
  Claim C9. Whenever \<open>cloneDom\<close> returns a list \<open>clone\<close>, there is a document node
  \<open>root\<close>, new in this call, whose \<open>children\<close> field is the reference \<open>clone\<close> itself:
  the list returned and the list of children of the root are one object. The root is
  the parent of every element of the list. So whatever is written into the returned
  array is what the root has as its children.
\<close>

theorem cloneDom_list_is_root_children:
  assumes "cloneDom stack h dm = Inr (clone, h')"
  shows "\<exists>root nd out.
     length h \<le> root \<and> node_at h' root = Some nd \<and> kind nd = DocumentNode \<and>
     children nd = Some clone \<and>
     items_at h' clone = Some out \<and> children_list h' root = Some out \<and>
     (\<forall>c\<in>set out. \<exists>cn. node_at h' c = Some cn \<and> parent cn = Some root) \<and>
     (\<forall>xs. items_at (write_items clone xs h') clone = Some xs \<and>
           children_list (write_items clone xs h') root = Some xs)"
proof -
  from cloneDom_facts [OF assms] obtain out where f: "length h \<le> clone" "Suc clone < length h'"
    "items_at h' clone = Some out"
    "node_at h' (Suc clone) = Some \<lparr>kind = DocumentNode, data = [], attribs = [],
        parent = None, children = Some clone\<rparr>"
    "\<forall>c\<in>set out. length h \<le> c \<and> c < clone \<and>
        (\<exists>nd. node_at h' c = Some nd \<and> parent nd = Some (Suc clone))"
    by blast
  let ?nd = "\<lparr>kind = DocumentNode, data = [], attribs = [], parent = None, children = Some clone\<rparr>"
  from f(2) have w: "items_at (write_items clone xs h') clone = Some xs" for xs
    by (simp add: items_at_write_items)
  have all: "length h \<le> Suc clone \<and> node_at h' (Suc clone) = Some ?nd \<and> kind ?nd = DocumentNode \<and>
     children ?nd = Some clone \<and>
     items_at h' clone = Some out \<and> children_list h' (Suc clone) = Some out \<and>
     (\<forall>c\<in>set out. \<exists>cn. node_at h' c = Some cn \<and> parent cn = Some (Suc clone)) \<and>
     (\<forall>xs. items_at (write_items clone xs h') clone = Some xs \<and>
           children_list (write_items clone xs h') (Suc clone) = Some xs)"
    using f w by (simp add: children_list_def)
  show ?thesis
    by (intro exI [of _ "Suc clone"] exI [of _ ?nd] exI [of _ out]) (rule all)
qed


text \<open>The theorem at the call on the list 6 of the example store, which returns.\<close>

theorem cloneDom_list_is_root_children_witness:
  "\<exists>clone h' root nd out.
     cloneDom 3 example_heap 6 = Inr (clone, h') \<and>
     length example_heap \<le> root \<and> node_at h' root = Some nd \<and> kind nd = DocumentNode \<and>
     children nd = Some clone \<and>
     items_at h' clone = Some out \<and> children_list h' root = Some out \<and>
     (\<forall>c\<in>set out. \<exists>cn. node_at h' c = Some cn \<and> parent cn = Some root) \<and>
     (\<forall>xs. items_at (write_items clone xs h') clone = Some xs \<and>
           children_list (write_items clone xs h') root = Some xs)"
proof -
  have a: "6 < length example_heap" by (simp add: example_heap_length)
  have b: "\<forall>r\<in>set (input_nodes example_heap 6). tree_of 3 example_heap r \<noteq> None"
    by (simp add: input_nodes_def example_heap_items example_heap_trees)
  have c: "(3::nat) \<le> 3" by simp
  from cloneDom_returns [OF a b c] obtain clone h' where
    r: "cloneDom 3 example_heap 6 = Inr (clone, h')" by blast
  from cloneDom_list_is_root_children [OF r] obtain root nd out where
    f: "length example_heap \<le> root \<and> node_at h' root = Some nd \<and> kind nd = DocumentNode \<and>
     children nd = Some clone \<and>
     items_at h' clone = Some out \<and> children_list h' root = Some out \<and>
     (\<forall>c\<in>set out. \<exists>cn. node_at h' c = Some cn \<and> parent cn = Some root) \<and>
     (\<forall>xs. items_at (write_items clone xs h') clone = Some xs \<and>
           children_list (write_items clone xs h') root = Some xs)"
    by (elim exE)
  show ?thesis
    by (intro exI [of _ clone] exI [of _ h'] exI [of _ root] exI [of _ nd] exI [of _ out]
        conjI [OF r f])
qed

text \<open>
  Claim C10. The branch of \<open>cloneDom\<close> is decided by the presence of \<open>length\<close> on the
  input and by nothing else. When the call returns, the returned list is the result of
  mapping \<open>cloneNode\<close> over the elements of the input if the input has a \<open>length\<close>,
  whether or not the input is itself a node, and it is the one-element list of the clone
  of the input if not. An input without a \<open>length\<close> that is not a node is passed to
  \<open>cloneNode\<close> all the same, whose fault comes back.
\<close>

theorem cloneDom_branch_by_length:
  "(cloneDom stack h dm = Inr (clone, h') \<longrightarrow>
      (\<exists>out h1. items_at h' clone = Some out \<and>
         (case items_at h dm of
            Some els \<Rightarrow> map_cloneNode stack h els = Inr (out, h1) \<and> length out = length els
          | None \<Rightarrow> (\<exists>c. cloneNode stack h dm = Inr (c, h1) \<and> out = [c])))) \<and>
   (dm < length h \<and> items_at h dm = None \<and> node_at h dm = None \<and> 0 < stack \<longrightarrow>
      cloneDom stack h dm = Inl NotImplemented)"
proof (intro conjI impI)
  assume a: "cloneDom stack h dm = Inr (clone, h')"
  from cloneDom_shape [OF a] obtain cs h1 where s:
     "case items_at h dm of
        Some els \<Rightarrow> map_cloneNode stack h els = Inr (cs, h1)
      | None \<Rightarrow> (\<exists>c. cloneNode stack h dm = Inr (c, h1) \<and> cs = [c])"
     "clone = length h1"
     "h' = fold (set_parent (Suc (length h1))) cs (h1 @ [new_array cs, Document (length h1)])"
    by blast
  have o: "items_at h' clone = Some cs" unfolding s(2,3) by (rule items_at_root_heap)
  have "case items_at h dm of
            Some els \<Rightarrow> map_cloneNode stack h els = Inr (cs, h1) \<and> length cs = length els
          | None \<Rightarrow> (\<exists>c. cloneNode stack h dm = Inr (c, h1) \<and> cs = [c])"
  proof (cases "items_at h dm")
    case None
    with s(1) show ?thesis by simp
  next
    case (Some els)
    with s(1) have m: "map_cloneNode stack h els = Inr (cs, h1)" by simp
    with clone_extends [of stack h _ _ h1 els cs] have "length cs = length els" by simp
    with m Some show ?thesis by simp
  qed
  with o show "\<exists>out h1. items_at h' clone = Some out \<and>
         (case items_at h dm of
            Some els \<Rightarrow> map_cloneNode stack h els = Inr (out, h1) \<and> length out = length els
          | None \<Rightarrow> (\<exists>c. cloneNode stack h dm = Inr (c, h1) \<and> out = [c]))"
    by blast
next
  assume a: "dm < length h \<and> items_at h dm = None \<and> node_at h dm = None \<and> 0 < stack"
  then obtain n where n: "stack = Suc n" by (cases stack) auto
  from a have "lookup h dm = Some (h ! dm)" "items (h ! dm) = None" "node_part (h ! dm) = None"
    by (auto simp: lookup_def items_at_def node_at_def)
  then show "cloneDom stack h dm = Inl NotImplemented"
    unfolding n by (simp add: cloneDom_def)
qed

text \<open>
  The theorem at object 7 of the example store, a node that has a \<open>length\<close>: the call
  returns the clones of its two elements, not a clone of the node.
\<close>

theorem cloneDom_branch_by_length_witness:
  "node_at example_heap 7 = Some (text_node ''t'' None) \<and>
   items_at example_heap 7 = Some [2, 5] \<and>
   (\<exists>clone h' out h1. cloneDom 3 example_heap 7 = Inr (clone, h') \<and>
      items_at h' clone = Some out \<and>
      map_cloneNode 3 example_heap [2, 5] = Inr (out, h1) \<and> length out = 2)"
proof -
  have a: "7 < length example_heap" by (simp add: example_heap_length)
  have b: "\<forall>r\<in>set (input_nodes example_heap 7). tree_of 3 example_heap r \<noteq> None"
    by (simp add: input_nodes_def example_heap_items example_heap_trees)
  have c: "(3::nat) \<le> 3" by simp
  from cloneDom_returns [OF a b c] obtain clone h' where
    r: "cloneDom 3 example_heap 7 = Inr (clone, h')" by blast
  from cloneDom_branch_by_length [of 3 example_heap 7 clone h'] r
  obtain out h1 where "items_at h' clone = Some out"
    "map_cloneNode 3 example_heap [2, 5] = Inr (out, h1)" "length out = 2"
    by (auto simp: example_heap_items)
  with r have "\<exists>clone h' out h1. cloneDom 3 example_heap 7 = Inr (clone, h') \<and>
      items_at h' clone = Some out \<and>
      map_cloneNode 3 example_heap [2, 5] = Inr (out, h1) \<and> length out = 2"
    by blast
  then show ?thesis by (simp add: example_heap_items example_heap_nodes)
qed

section \<open>Properties of domEach\<close>






end
